theory Spec2Isabelle
  imports Main "HOL-Library.Char_ord" "HOL-Library.List_Lexorder"
begin

section \<open>tfcycle: the node model (src/unnamed/part_002)\<close>

text \<open>
  Go strings are modelled as \<open>string\<close>, one \<open>char\<close> per code point below 256.
  Go compares strings bytewise, which on such strings is the lexicographic order of
  \<open>List_Lexorder\<close> over the character codes of \<open>Char_ord\<close>.
\<close>

datatype NodeAction =
  ActionNormal | ActionExpand | ActionDestroy | ActionClose | ActionDestroyDeposed

record CycleNode =
  ResourceType :: string
  ResourceName :: string
  ModulePath :: "string list"
  InstanceKey :: string
  Action :: NodeAction
  Annotations :: "(string \<times> string) list"
  RawString :: string

record TfCycle =
  Nodes :: "CycleNode list"
  RawError :: string
  Cycles :: "string list list"

text \<open>\<open>strings.Join(parts, sep)\<close>.\<close>

fun Join :: "string list \<Rightarrow> string \<Rightarrow> string" where
  "Join [] sep = []"
| "Join [p] sep = p"
| "Join (p # q # ps) sep = p @ sep @ Join (q # ps) sep"

text \<open>\<open>(*CycleNode).FullName\<close>: the module path and \<open>type.name\<close> joined with dots, then
  the instance key in brackets when it is not empty.\<close>

definition FullName :: "CycleNode \<Rightarrow> string" where
  "FullName n =
     (let parts = ModulePath n @ [ResourceType n @ ''.'' @ ResourceName n];
          result = Join parts ''.''
      in if InstanceKey n \<noteq> [] then result @ ''['' @ InstanceKey n @ '']'' else result)"

text \<open>\<open>(*TfCycle).GetNodeByName\<close>: a linear scan that returns the first node whose full name
  is the one asked for, \<open>None\<close> for Go's \<open>nil\<close>.\<close>

fun GetNodeByName_loop :: "CycleNode list \<Rightarrow> string \<Rightarrow> CycleNode option" where
  "GetNodeByName_loop [] name = None"
| "GetNodeByName_loop (node # rest) name =
     (if FullName node = name then Some node else GetNodeByName_loop rest name)"

definition GetNodeByName :: "TfCycle \<Rightarrow> string \<Rightarrow> CycleNode option" where
  "GetNodeByName tc name = GetNodeByName_loop (Nodes tc) name"

section \<open>Library functions on maps and strings\<close>

text \<open>A Go map is an association list with one entry per key; \<open>assoc_set\<close> is the
  assignment \<open>m[k] = v\<close>.\<close>

fun assoc_set :: "('k \<times> 'v) list \<Rightarrow> 'k \<Rightarrow> 'v \<Rightarrow> ('k \<times> 'v) list" where
  "assoc_set [] k v = [(k, v)]"
| "assoc_set ((k', v') # m) k v =
     (if k' = k then (k, v) # m else (k', v') # assoc_set m k v)"

text \<open>\<open>strings.HasPrefix\<close>.\<close>

fun HasPrefix :: "string \<Rightarrow> string \<Rightarrow> bool" where
  "HasPrefix s [] = True"
| "HasPrefix [] (p # ps) = False"
| "HasPrefix (c # cs) (p # ps) = (c = p \<and> HasPrefix cs ps)"

section \<open>The parser (src/unnamed/part_000)\<close>

subsection \<open>Characters and library string functions\<close>

text \<open>The class \<open>\s\<close> of Go's regular expressions: tab, line feed, form feed, carriage
  return and space.\<close>

definition is_space_re :: "char \<Rightarrow> bool" where
  "is_space_re c = (c = CHR 0x09 \<or> c = CHR 0x0A \<or> c = CHR 0x0C \<or> c = CHR 0x0D \<or> c = CHR '' '')"

text \<open>\<open>unicode.IsSpace\<close> on code points below 256, which is what \<open>strings.TrimSpace\<close>
  cuts: the five above, vertical tab, NEL (0x85) and the no-break space (0xA0).\<close>

definition isSpace :: "char \<Rightarrow> bool" where
  "isSpace c = (c = CHR 0x09 \<or> c = CHR 0x0A \<or> c = CHR 0x0B \<or> c = CHR 0x0C \<or> c = CHR 0x0D \<or>
     c = CHR '' '' \<or> c = CHR 0x85 \<or> c = CHR 0xA0)"

text \<open>The class \<open>[a-zA-Z0-9_-]\<close>.\<close>

definition is_ident :: "char \<Rightarrow> bool" where
  "is_ident c = ((CHR ''a'' \<le> c \<and> c \<le> CHR ''z'') \<or> (CHR ''A'' \<le> c \<and> c \<le> CHR ''Z'') \<or>
     (CHR ''0'' \<le> c \<and> c \<le> CHR ''9'') \<or> c = CHR ''_'' \<or> c = CHR ''-'')"

text \<open>The class \<open>[a-f0-9]\<close>.\<close>

definition is_hex :: "char \<Rightarrow> bool" where
  "is_hex c = ((CHR ''a'' \<le> c \<and> c \<le> CHR ''f'') \<or> (CHR ''0'' \<le> c \<and> c \<le> CHR ''9''))"

definition TrimSpace :: "string \<Rightarrow> string" where
  "TrimSpace s = rev (dropWhile isSpace (rev (dropWhile isSpace s)))"

text \<open>\<open>strings.Trim(s, "\"")\<close>: all leading and trailing double quotes are cut.\<close>

definition Trim_quotes :: "string \<Rightarrow> string" where
  "Trim_quotes s =
     rev (dropWhile (\<lambda>c. c = CHR 0x22) (rev (dropWhile (\<lambda>c. c = CHR 0x22) s)))"

text \<open>A literal at the start of a string: what is left after it, if it is there.
  \<open>strings.TrimPrefix\<close> and \<open>strings.TrimSuffix\<close> cut one occurrence.\<close>

fun strip_prefix :: "string \<Rightarrow> string \<Rightarrow> string option" where
  "strip_prefix [] s = Some s"
| "strip_prefix (p # ps) [] = None"
| "strip_prefix (p # ps) (c # cs) = (if p = c then strip_prefix ps cs else None)"

definition TrimPrefix :: "string \<Rightarrow> string \<Rightarrow> string" where
  "TrimPrefix s prefix = (case strip_prefix prefix s of None \<Rightarrow> s | Some rest \<Rightarrow> rest)"

definition TrimSuffix :: "string \<Rightarrow> string \<Rightarrow> string" where
  "TrimSuffix s suffix =
     (case strip_prefix (rev suffix) (rev s) of None \<Rightarrow> s | Some rest \<Rightarrow> rev rest)"

text \<open>\<open>strings.Split(s, ".")\<close>, with the piece being read as an accumulator.\<close>

fun Split_dot_acc :: "string \<Rightarrow> string \<Rightarrow> string list" where
  "Split_dot_acc cur [] = [cur]"
| "Split_dot_acc cur (c # cs) =
     (if c = CHR ''.'' then cur # Split_dot_acc [] cs else Split_dot_acc (cur @ [c]) cs)"

definition Split_dot :: "string \<Rightarrow> string list" where
  "Split_dot s = Split_dot_acc [] s"

subsection \<open>The regular expressions of \<open>NewParser\<close>\<close>

text \<open>
  Go's \<open>regexp\<close> finds the leftmost match and, among the matches that start there, the
  one a backtracking matcher finds first (greedy repetition, alternatives in order).
  Each expression below is written as a matcher anchored at the start of its argument
  (\<open>_at\<close>) and a search that tries every start position from the left (\<open>_find\<close>). In
  every expression a repetition is followed by a character outside the repeated class
  (or by the end of the expression), so the greedy choice is the only one that can
  match, and \<open>takeWhile\<close>/\<open>dropWhile\<close> compute it.
\<close>

text \<open>\<open>cycleRegex = (?s)Error:\s*Cycle:\s*(.+)\<close>; the result is group 1. The last group
  needs one character: when only white space follows \<open>Cycle:\<close>, the second \<open>\s*\<close> gives
  its last character back to \<open>(.+)\<close>.\<close>

definition cycleRegex_at :: "string \<Rightarrow> string option" where
  "cycleRegex_at s =
     (case strip_prefix ''Error:'' s of
        None \<Rightarrow> None
      | Some r1 \<Rightarrow>
          (case strip_prefix ''Cycle:'' (dropWhile is_space_re r1) of
             None \<Rightarrow> None
           | Some r2 \<Rightarrow>
               if dropWhile is_space_re r2 \<noteq> [] then Some (dropWhile is_space_re r2)
               else if r2 \<noteq> [] then Some [last r2]
               else None))"

fun cycleRegex_find :: "string \<Rightarrow> string option" where
  "cycleRegex_find [] = cycleRegex_at []"
| "cycleRegex_find (c # cs) =
     (case cycleRegex_at (c # cs) of Some m \<Rightarrow> Some m | None \<Rightarrow> cycleRegex_find cs)"

text \<open>\<open>resourceRegex = ([a-zA-Z0-9_-]+)\.([a-zA-Z0-9_-]+)\<close>; the result is the pair of
  groups 1 and 2.\<close>

definition resourceRegex_at :: "string \<Rightarrow> (string \<times> string) option" where
  "resourceRegex_at s =
     (let t = takeWhile is_ident s in
      if t = [] then None
      else (case dropWhile is_ident s of
              [] \<Rightarrow> None
            | d # r \<Rightarrow>
                if d = CHR ''.'' \<and> takeWhile is_ident r \<noteq> [] then Some (t, takeWhile is_ident r)
                else None))"

fun resourceRegex_find :: "string \<Rightarrow> (string \<times> string) option" where
  "resourceRegex_find [] = None"
| "resourceRegex_find (c # cs) =
     (case resourceRegex_at (c # cs) of Some m \<Rightarrow> Some m | None \<Rightarrow> resourceRegex_find cs)"

text \<open>\<open>moduleRegex = ^((?:module\.[a-zA-Z0-9_-]+\.)*)\<close>. One group
  \<open>module\.[a-zA-Z0-9_-]+\.\<close> at the start of a string: the group and what follows it.\<close>

definition module_group :: "string \<Rightarrow> (string \<times> string) option" where
  "module_group s =
     (case strip_prefix ''module.'' s of
        None \<Rightarrow> None
      | Some r \<Rightarrow>
          if takeWhile is_ident r = [] then None
          else (case dropWhile is_ident r of
                  [] \<Rightarrow> None
                | d # rest \<Rightarrow>
                    if d = CHR ''.'' then Some (''module.'' @ takeWhile is_ident r @ ''.'', rest)
                    else None))"

lemma strip_prefix_length: "strip_prefix p s = Some r \<Longrightarrow> length s = length p + length r"
  by (induction p s rule: strip_prefix.induct) (auto split: if_splits)

lemma module_group_shorter: "module_group s = Some (grp, rest) \<Longrightarrow> length rest < length s"
proof -
  assume a: "module_group s = Some (grp, rest)"
  then obtain r where r: "strip_prefix ''module.'' s = Some r"
    by (auto simp: module_group_def split: option.splits)
  with a obtain d where "dropWhile is_ident r = d # rest"
    by (auto simp: module_group_def split: list.splits if_splits)
  then have "length rest < length r"
    using length_dropWhile_le [of is_ident r] by simp
  with strip_prefix_length [OF r] show ?thesis by simp
qed

text \<open>The whole expression always matches, with group 1 the longest run of such groups
  (possibly empty).\<close>

function (sequential) moduleRegex_match :: "string \<Rightarrow> string" where
  "moduleRegex_match [] = []"
| "moduleRegex_match (c # cs) =
     (case module_group (c # cs) of
        None \<Rightarrow> []
      | Some (grp, rest) \<Rightarrow> grp @ moduleRegex_match rest)"
  by pat_completeness auto
termination
  by (relation "measure length") (auto dest: module_group_shorter)

text \<open>\<open>instanceRegex = \[([^\]]+)\]\<close>: group 1 and what follows the match.\<close>

definition instanceRegex_at :: "string \<Rightarrow> (string \<times> string) option" where
  "instanceRegex_at s =
     (case s of
        [] \<Rightarrow> None
      | b # r \<Rightarrow>
          if b = CHR ''['' \<and> takeWhile (\<lambda>c. c \<noteq> CHR '']'') r \<noteq> [] then
            (case dropWhile (\<lambda>c. c \<noteq> CHR '']'') r of
               [] \<Rightarrow> None
             | d # rest \<Rightarrow> Some (takeWhile (\<lambda>c. c \<noteq> CHR '']'') r, rest))
          else None)"

fun instanceRegex_find :: "string \<Rightarrow> string option" where
  "instanceRegex_find [] = None"
| "instanceRegex_find (c # cs) =
     (case instanceRegex_at (c # cs) of
        Some (key, rest) \<Rightarrow> Some key
      | None \<Rightarrow> instanceRegex_find cs)"

lemma instanceRegex_at_shorter: "instanceRegex_at s = Some (key, rest) \<Longrightarrow> length rest < length s"
proof -
  assume a: "instanceRegex_at s = Some (key, rest)"
  then obtain b r d where "s = b # r" "dropWhile (\<lambda>c. c \<noteq> CHR '']'') r = d # rest"
    by (auto simp: instanceRegex_at_def split: list.splits if_splits)
  then show ?thesis using length_dropWhile_le [of "\<lambda>c. c \<noteq> CHR '']''" r] by simp
qed

text \<open>\<open>instanceRegex.ReplaceAllString(s, "")\<close>: every match is cut, the search going on
  after each.\<close>

function (sequential) instanceRegex_remove :: "string \<Rightarrow> string" where
  "instanceRegex_remove [] = []"
| "instanceRegex_remove (c # cs) =
     (case instanceRegex_at (c # cs) of
        Some (key, rest) \<Rightarrow> instanceRegex_remove rest
      | None \<Rightarrow> c # instanceRegex_remove cs)"
  by pat_completeness auto
termination
  by (relation "measure length") (auto dest: instanceRegex_at_shorter)

text \<open>\<open>actionRegex = \s*\((expand|destroy|close|destroy\s+deposed\s+[a-f0-9]+)\)\<close>.
  The fourth alternative at the start of a string: what it matched and the rest.\<close>

definition deposed_alt :: "string \<Rightarrow> (string \<times> string) option" where
  "deposed_alt s =
     (case strip_prefix ''destroy'' s of
        None \<Rightarrow> None
      | Some r1 \<Rightarrow>
          if takeWhile is_space_re r1 = [] then None
          else (case strip_prefix ''deposed'' (dropWhile is_space_re r1) of
                  None \<Rightarrow> None
                | Some r2 \<Rightarrow>
                    if takeWhile is_space_re r2 = [] \<or>
                       takeWhile is_hex (dropWhile is_space_re r2) = [] then None
                    else Some (''destroy'' @ takeWhile is_space_re r1 @ ''deposed'' @
                                 takeWhile is_space_re r2 @
                                 takeWhile is_hex (dropWhile is_space_re r2),
                               dropWhile is_hex (dropWhile is_space_re r2))))"

text \<open>The alternatives in their order, each with the closing parenthesis after it: group
  1 and what follows the match.\<close>

definition action_group :: "string \<Rightarrow> (string \<times> string) option" where
  "action_group s =
     (case strip_prefix ''expand)'' s of
        Some rest \<Rightarrow> Some (''expand'', rest)
      | None \<Rightarrow>
     (case strip_prefix ''destroy)'' s of
        Some rest \<Rightarrow> Some (''destroy'', rest)
      | None \<Rightarrow>
     (case strip_prefix ''close)'' s of
        Some rest \<Rightarrow> Some (''close'', rest)
      | None \<Rightarrow>
     (case deposed_alt s of
        None \<Rightarrow> None
      | Some (g, r) \<Rightarrow>
          (case strip_prefix '')'' r of None \<Rightarrow> None | Some rest \<Rightarrow> Some (g, rest))))))"

definition actionRegex_at :: "string \<Rightarrow> (string \<times> string) option" where
  "actionRegex_at s =
     (case strip_prefix ''('' (dropWhile is_space_re s) of
        None \<Rightarrow> None
      | Some r \<Rightarrow> action_group r)"

fun actionRegex_find :: "string \<Rightarrow> string option" where
  "actionRegex_find [] = None"
| "actionRegex_find (c # cs) =
     (case actionRegex_at (c # cs) of
        Some (g, rest) \<Rightarrow> Some g
      | None \<Rightarrow> actionRegex_find cs)"

lemma deposed_alt_shorter: "deposed_alt s = Some (g, r) \<Longrightarrow> length r \<le> length s"
proof -
  assume a: "deposed_alt s = Some (g, r)"
  then obtain r1 where r1: "strip_prefix ''destroy'' s = Some r1"
    by (auto simp: deposed_alt_def split: option.splits)
  with a obtain r2 where r2: "strip_prefix ''deposed'' (dropWhile is_space_re r1) = Some r2"
    by (auto simp: deposed_alt_def split: option.splits if_splits)
  with a r1 have r: "r = dropWhile is_hex (dropWhile is_space_re r2)"
    by (auto simp: deposed_alt_def split: if_splits)
  have "length r \<le> length r2"
    unfolding r using length_dropWhile_le [of is_hex "dropWhile is_space_re r2"]
      length_dropWhile_le [of is_space_re r2] by linarith
  moreover have "length r2 \<le> length r1"
    using strip_prefix_length [OF r2] length_dropWhile_le [of is_space_re r1] by linarith
  moreover have "length r1 \<le> length s" using strip_prefix_length [OF r1] by simp
  ultimately show ?thesis by linarith
qed

lemma action_group_shorter: "action_group s = Some (g, rest) \<Longrightarrow> length rest < length s"
  by (auto simp: action_group_def split: option.splits
      dest!: strip_prefix_length deposed_alt_shorter)

lemma actionRegex_at_shorter: "actionRegex_at s = Some (g, rest) \<Longrightarrow> length rest < length s"
proof -
  assume a: "actionRegex_at s = Some (g, rest)"
  then obtain r where r: "strip_prefix ''('' (dropWhile is_space_re s) = Some r"
    "action_group r = Some (g, rest)"
    by (auto simp: actionRegex_at_def split: option.splits)
  from strip_prefix_length [OF r(1)] length_dropWhile_le [of is_space_re s]
    action_group_shorter [OF r(2)]
  show ?thesis by simp
qed

function (sequential) actionRegex_remove :: "string \<Rightarrow> string" where
  "actionRegex_remove [] = []"
| "actionRegex_remove (c # cs) =
     (case actionRegex_at (c # cs) of
        Some (g, rest) \<Rightarrow> actionRegex_remove rest
      | None \<Rightarrow> c # actionRegex_remove cs)"
  by pat_completeness auto
termination
  by (relation "measure length") (auto dest: actionRegex_at_shorter)

text \<open>\<open>deposedRegex = destroy\s+deposed\s+([a-f0-9]+)\<close>; the result is group 1.\<close>

definition deposedRegex_at :: "string \<Rightarrow> string option" where
  "deposedRegex_at s =
     (case strip_prefix ''destroy'' s of
        None \<Rightarrow> None
      | Some r1 \<Rightarrow>
          if takeWhile is_space_re r1 = [] then None
          else (case strip_prefix ''deposed'' (dropWhile is_space_re r1) of
                  None \<Rightarrow> None
                | Some r2 \<Rightarrow>
                    if takeWhile is_space_re r2 = [] \<or>
                       takeWhile is_hex (dropWhile is_space_re r2) = [] then None
                    else Some (takeWhile is_hex (dropWhile is_space_re r2))))"

fun deposedRegex_find :: "string \<Rightarrow> string option" where
  "deposedRegex_find [] = None"
| "deposedRegex_find (c # cs) =
     (case deposedRegex_at (c # cs) of Some m \<Rightarrow> Some m | None \<Rightarrow> deposedRegex_find cs)"


subsection \<open>\<open>splitResources\<close>\<close>

record split_state =
  resources :: "string list"
  current :: string
  inBrackets :: int
  inParens :: int

definition write_rune :: "split_state \<Rightarrow> char \<Rightarrow> split_state" where
  "write_rune st c = st\<lparr>current := current st @ [c]\<rparr>"

text \<open>One turn of the loop over the characters: the \<open>switch\<close>.\<close>

definition split_step :: "split_state \<Rightarrow> char \<Rightarrow> split_state" where
  "split_step st c =
     (if c = CHR ''['' then write_rune (st\<lparr>inBrackets := inBrackets st + 1\<rparr>) c
      else if c = CHR '']'' then write_rune (st\<lparr>inBrackets := inBrackets st - 1\<rparr>) c
      else if c = CHR ''('' then write_rune (st\<lparr>inParens := inParens st + 1\<rparr>) c
      else if c = CHR '')'' then write_rune (st\<lparr>inParens := inParens st - 1\<rparr>) c
      else if c = CHR '','' then
        (if inBrackets st = 0 \<and> inParens st = 0 then
           (if length (current st) > 0
            then st\<lparr>resources := resources st @ [current st], current := []\<rparr>
            else st)
         else write_rune st c)
      else write_rune st c)"

definition split_init :: split_state where
  "split_init = \<lparr>resources = [], current = [], inBrackets = 0, inParens = 0\<rparr>"

text \<open>The slice \<open>resources\<close> when the scan is over, the last piece included.\<close>

definition split_raw :: "string \<Rightarrow> string list" where
  "split_raw text =
     (let st = foldl split_step split_init text
      in if length (current st) > 0 then resources st @ [current st] else resources st)"

definition newlines_to_spaces :: "string \<Rightarrow> string" where
  "newlines_to_spaces cycleText =
     map (\<lambda>c. if c = CHR 0x09 then CHR '' '' else c)
       (map (\<lambda>c. if c = CHR 0x0A then CHR '' '' else c) cycleText)"

definition splitResources :: "string \<Rightarrow> string list" where
  "splitResources cycleText =
     filter (\<lambda>trimmed. trimmed \<noteq> []) (map TrimSpace (split_raw (newlines_to_spaces cycleText)))"

subsection \<open>\<open>parseResource\<close> and \<open>ParseError\<close>\<close>

datatype parse_error =
  CycleNotExtracted | NoValidResources | ResourceNotParsed string

text \<open>The \<open>switch\<close> on the action string. Its cases are tried in the source's order; a
  string that fits none leaves the node as it is.\<close>

definition set_action :: "CycleNode \<Rightarrow> string \<Rightarrow> CycleNode" where
  "set_action node actionStr =
     (if actionStr = ''expand'' then node\<lparr>Action := ActionExpand\<rparr>
      else if actionStr = ''close'' then node\<lparr>Action := ActionClose\<rparr>
      else if actionStr = ''destroy'' then node\<lparr>Action := ActionDestroy\<rparr>
      else if HasPrefix actionStr ''destroy deposed'' then
        (case deposedRegex_find actionStr of
           None \<Rightarrow> node\<lparr>Action := ActionDestroyDeposed\<rparr>
         | Some deposed_id \<Rightarrow>
             node\<lparr>Action := ActionDestroyDeposed,
                  Annotations := assoc_set (Annotations node) ''deposed_id'' deposed_id\<rparr>)
      else node)"

text \<open>The three stripping steps, each on the pair of the node being filled and
  \<open>cleanStr\<close>. The action is looked for in \<open>resourceStr\<close>, the other two in
  \<open>cleanStr\<close>.\<close>

definition strip_action :: "string \<Rightarrow> CycleNode \<times> string \<Rightarrow> CycleNode \<times> string" where
  "strip_action resourceStr nc =
     (case actionRegex_find resourceStr of
        None \<Rightarrow> nc
      | Some g \<Rightarrow> (set_action (fst nc) (TrimSpace g), actionRegex_remove (snd nc)))"

definition strip_instance :: "CycleNode \<times> string \<Rightarrow> CycleNode \<times> string" where
  "strip_instance nc =
     (case instanceRegex_find (snd nc) of
        None \<Rightarrow> nc
      | Some key \<Rightarrow> ((fst nc)\<lparr>InstanceKey := Trim_quotes key\<rparr>, instanceRegex_remove (snd nc)))"

definition strip_module :: "CycleNode \<times> string \<Rightarrow> CycleNode \<times> string" where
  "strip_module nc =
     (let m = moduleRegex_match (snd nc) in
      if m \<noteq> [] then
        (let modulePath = TrimSuffix m ''.'' in
         (if modulePath \<noteq> [] then (fst nc)\<lparr>ModulePath := Split_dot modulePath\<rparr> else fst nc,
          TrimPrefix (snd nc) m))
      else nc)"

definition new_node :: "string \<Rightarrow> CycleNode" where
  "new_node resourceStr =
     \<lparr>ResourceType = [], ResourceName = [], ModulePath = [], InstanceKey = [],
      Action = ActionNormal, Annotations = [], RawString = resourceStr\<rparr>"

text \<open>What is left of the segment when the three steps are done.\<close>

definition stripped :: "string \<Rightarrow> CycleNode \<times> string" where
  "stripped resourceStr =
     strip_module (strip_instance (strip_action resourceStr (new_node resourceStr, resourceStr)))"

definition parseResource :: "string \<Rightarrow> parse_error + CycleNode" where
  "parseResource resourceStr =
     (case stripped resourceStr of
        (node, cleanStr) \<Rightarrow>
          (case resourceRegex_find cleanStr of
             None \<Rightarrow> Inl (ResourceNotParsed cleanStr)
           | Some (t, n) \<Rightarrow> Inr (node\<lparr>ResourceType := t, ResourceName := n\<rparr>)))"

text \<open>The loop of \<open>ParseError\<close> over the segments: a segment that fails is skipped (the
  source prints a warning), one that parses is appended to \<open>cycle.Nodes\<close>.\<close>

fun parse_segments :: "string list \<Rightarrow> CycleNode list \<Rightarrow> CycleNode list" where
  "parse_segments [] nodes = nodes"
| "parse_segments (resourceStr # rest) nodes =
     (case parseResource (TrimSpace resourceStr) of
        Inl err \<Rightarrow> parse_segments rest nodes
      | Inr node \<Rightarrow> parse_segments rest (nodes @ [node]))"

definition ParseError :: "string \<Rightarrow> parse_error + TfCycle" where
  "ParseError errorText =
     (case cycleRegex_find errorText of
        None \<Rightarrow> Inl CycleNotExtracted
      | Some cycleText \<Rightarrow>
          (let nodes = parse_segments (splitResources cycleText) []
           in if length nodes = 0 then Inl NoValidResources
              else Inr \<lparr>Nodes = nodes, RawError = errorText, Cycles = []\<rparr>))"

section \<open>The analyzer (src/analyzer.go)\<close>

subsection \<open>The heuristic graph\<close>

text \<open>
  The adjacency \<open>map[string][]string\<close>; reading a missing key gives the empty slice.
\<close>

type_synonym graph = "(string \<times> string list) list"

definition graph_get :: "graph \<Rightarrow> string \<Rightarrow> string list" where
  "graph_get g k = (case map_of g k of None \<Rightarrow> [] | Some v \<Rightarrow> v)"

text \<open>\<open>shareModulePath\<close>: the two paths agree on the first \<open>minLen\<close> positions, and
  \<open>minLen\<close> is not zero.\<close>

definition shareModulePath :: "string list \<Rightarrow> string list \<Rightarrow> bool" where
  "shareModulePath pathA pathB =
     (let minLen = (if length pathB < length pathA then length pathB else length pathA)
      in if minLen = 0 then False
         else list_all (\<lambda>i. pathA ! i = pathB ! i) [0..<minLen])"

text \<open>\<open>likelyDependency\<close>, branch by branch. The module-path branch returns the result of
  \<open>shareModulePath\<close>, whatever it is, as soon as both paths are not empty.\<close>

definition likelyDependency :: "CycleNode \<Rightarrow> CycleNode \<Rightarrow> bool" where
  "likelyDependency from to =
     (if ResourceType from = ''aws_security_group'' \<and> ResourceType to = ''aws_security_group''
      then True
      else if ResourceType from = ''aws_instance'' \<and> ResourceType to = ''aws_security_group''
      then True
      else if ResourceType from = ''aws_security_group'' \<and> ResourceType to = ''aws_instance''
      then True
      else if HasPrefix (ResourceType from) ''aws_iam'' \<and> HasPrefix (ResourceType to) ''aws_iam''
      then True
      else if length (ModulePath from) > 0 \<and> length (ModulePath to) > 0
      then shareModulePath (ModulePath from) (ModulePath to)
      else if Action from = ActionDestroy \<and> Action to \<noteq> ActionDestroy
      then True
      else False)"

text \<open>The body of the inner loop of \<open>buildHypotheticalGraph\<close> at the index pair \<open>(i, j)\<close>.\<close>

definition edge_step :: "CycleNode list \<Rightarrow> nat \<Rightarrow> graph \<Rightarrow> nat \<Rightarrow> graph" where
  "edge_step nodes i g j =
     (if i = j then g
      else if likelyDependency (nodes ! i) (nodes ! j)
      then assoc_set g (FullName (nodes ! i))
             (graph_get g (FullName (nodes ! i)) @ [FullName (nodes ! j)])
      else g)"

definition edge_row :: "CycleNode list \<Rightarrow> graph \<Rightarrow> nat \<Rightarrow> graph" where
  "edge_row nodes g i = foldl (edge_step nodes i) g [0..<length nodes]"

text \<open>The adjacency that \<open>buildHypotheticalGraph\<close> holds when it reaches the test
  \<open>allNodesHaveConnections\<close>: every name mapped to the empty slice first, then the
  two nested loops over the nodes. (The map \<open>resourceTypes\<close> the function also fills is
  never read.)\<close>

definition heuristic_graph :: "CycleNode list \<Rightarrow> string list \<Rightarrow> graph" where
  "heuristic_graph nodes nodeNames =
     foldl (edge_row nodes)
       (foldl (\<lambda>g name. assoc_set g name []) [] nodeNames)
       [0..<length nodes]"

definition allNodesHaveConnections :: "graph \<Rightarrow> bool" where
  "allNodesHaveConnections g = list_all (\<lambda>(k, connections). length connections \<noteq> 0) g"

text \<open>\<open>buildSequentialFallback\<close>: name \<open>i\<close> points to name \<open>(i + 1) mod n\<close>; a name that
  occurs twice keeps the entry written last.\<close>

definition buildSequentialFallback :: "string list \<Rightarrow> graph" where
  "buildSequentialFallback nodeNames =
     foldl (\<lambda>g i. assoc_set g (nodeNames ! i) [nodeNames ! ((i + 1) mod length nodeNames)])
       [] [0..<length nodeNames]"

definition buildHypotheticalGraph :: "CycleNode list \<Rightarrow> string list \<Rightarrow> graph" where
  "buildHypotheticalGraph nodes nodeNames =
     (let g = heuristic_graph nodes nodeNames
      in if allNodesHaveConnections g then g else buildSequentialFallback nodeNames)"

text \<open>\<open>FindMinimalCycles\<close> passes the full names of the nodes as \<open>nodeNames\<close>.\<close>

definition heuristic_adjacency :: "CycleNode list \<Rightarrow> graph" where
  "heuristic_adjacency nodes = heuristic_graph nodes (map FullName nodes)"

subsection \<open>The depth-first search\<close>

text \<open>
  The closure \<open>dfs\<close> of \<open>findCyclesInGraph\<close> mutates the maps \<open>visited\<close> and
  \<open>recStack\<close> and the slice \<open>cycles\<close>; the model passes them along as a record. The
  recursion depth is bounded by a fuel argument, and running out of fuel is \<open>None\<close>.
\<close>

record dfs_state =
  visited :: "string \<Rightarrow> bool"
  recStack :: "string \<Rightarrow> bool"
  cycles :: "string list list"

text \<open>The search for \<open>cycleStart\<close>: the first index of the neighbour in the path,
  \<open>None\<close> for the source's \<open>-1\<close>.\<close>

fun cycleStart :: "string list \<Rightarrow> string \<Rightarrow> nat option" where
  "cycleStart [] neighbor = None"
| "cycleStart (pathNode # rest) neighbor =
     (if pathNode = neighbor then Some 0 else map_option Suc (cycleStart rest neighbor))"

fun dfs :: "nat \<Rightarrow> graph \<Rightarrow> string \<Rightarrow> string list \<Rightarrow> dfs_state \<Rightarrow> (bool \<times> dfs_state) option"
and dfs_neighbors ::
  "nat \<Rightarrow> graph \<Rightarrow> string \<Rightarrow> string list \<Rightarrow> string list \<Rightarrow> dfs_state \<Rightarrow> (bool \<times> dfs_state) option"
where
  "dfs 0 g node path st = None"
| "dfs (Suc fuel) g node path st =
     dfs_neighbors fuel g node (path @ [node]) (graph_get g node)
       (st\<lparr>visited := (visited st)(node := True), recStack := (recStack st)(node := True)\<rparr>)"
| "dfs_neighbors fuel g node path [] st =
     Some (False, st\<lparr>recStack := (recStack st)(node := False)\<rparr>)"
| "dfs_neighbors fuel g node path (neighbor # rest) st =
     (if \<not> visited st neighbor then
        (case dfs fuel g neighbor path st of
           None \<Rightarrow> None
         | Some (found, st') \<Rightarrow>
             if found then Some (True, st') else dfs_neighbors fuel g node path rest st')
      else if recStack st neighbor then
        (case cycleStart path neighbor of
           None \<Rightarrow> Some (True, st)
         | Some i \<Rightarrow> Some (True, st\<lparr>cycles := cycles st @ [drop i path]\<rparr>))
      else dfs_neighbors fuel g node path rest st)"

text \<open>The loop over the roots: \<open>dfs\<close> is started at every name not visited yet, and its
  boolean result is dropped.\<close>

fun dfs_roots :: "nat \<Rightarrow> graph \<Rightarrow> string list \<Rightarrow> dfs_state \<Rightarrow> dfs_state option" where
  "dfs_roots fuel g [] st = Some st"
| "dfs_roots fuel g (node # rest) st =
     (if \<not> visited st node then
        (case dfs fuel g node [] st of
           None \<Rightarrow> None
         | Some (found, st') \<Rightarrow> dfs_roots fuel g rest st')
      else dfs_roots fuel g rest st)"

subsection \<open>Normalising and deduplicating cycles\<close>

text \<open>\<open>normalizeCycle\<close>: \<open>minIndex\<close> moves to \<open>i\<close> only when the node at \<open>i\<close> is strictly
  smaller, so it ends at the first position of the smallest node.\<close>

definition minIndex_of :: "string list \<Rightarrow> nat" where
  "minIndex_of cycle =
     foldl (\<lambda>minIndex i. if cycle ! i < cycle ! minIndex then i else minIndex) 0
       [0..<length cycle]"

definition normalizeCycle :: "string list \<Rightarrow> string list" where
  "normalizeCycle cycle =
     (if length cycle = 0 then cycle
      else map (\<lambda>i. cycle ! ((minIndex_of cycle + i) mod length cycle)) [0..<length cycle])"

text \<open>\<open>deduplicateCycles\<close>: the set \<open>seen\<close> of keys and the slice \<open>unique\<close> are threaded
  through the loop. The cycle appended is the one found, not its normal form.\<close>

fun deduplicate_loop ::
  "string list list \<Rightarrow> string set \<Rightarrow> string list list \<Rightarrow> string list list" where
  "deduplicate_loop [] seen unique = unique"
| "deduplicate_loop (cycle # rest) seen unique =
     (if length cycle < 2 then deduplicate_loop rest seen unique
      else let key = Join (normalizeCycle cycle) '','' in
        if key \<notin> seen then deduplicate_loop rest (insert key seen) (unique @ [cycle])
        else deduplicate_loop rest seen unique)"

definition deduplicateCycles :: "string list list \<Rightarrow> string list list" where
  "deduplicateCycles cs = deduplicate_loop cs {} []"

definition findCyclesInGraph :: "nat \<Rightarrow> graph \<Rightarrow> string list \<Rightarrow> string list list option" where
  "findCyclesInGraph fuel g nodeNames =
     (case dfs_roots fuel g nodeNames
             \<lparr>visited = (\<lambda>_. False), recStack = (\<lambda>_. False), cycles = []\<rparr> of
        None \<Rightarrow> None
      | Some st \<Rightarrow>
          Some (deduplicateCycles
                  (if length (cycles st) = 0 then cycles st @ [nodeNames] else cycles st)))"

text \<open>
  \<open>sort.Slice\<close> with the comparison \<open>len(cycles[i]) < len(cycles[j])\<close> is library code; it
  is modelled by the insertion sort on the key \<open>length\<close>, which is what the library runs
  on slices of at most 12 elements. On longer slices the library's sort is not stable, so
  the order among cycles of equal length may differ from the model's there; no property
  stated below depends on the order among cycles of equal length.
  \<open>FindMinimalCycles\<close> stores the result in the field \<open>Cycles\<close> and returns it.
\<close>

definition FindMinimalCycles :: "nat \<Rightarrow> TfCycle \<Rightarrow> (string list list \<times> TfCycle) option" where
  "FindMinimalCycles fuel tc =
     (let nodeNames = map FullName (Nodes tc);
          g = buildHypotheticalGraph (Nodes tc) nodeNames
      in case findCyclesInGraph fuel g nodeNames of
           None \<Rightarrow> None
         | Some cs \<Rightarrow>
             (let sorted_cs = sort_key length cs
              in Some (sorted_cs, tc\<lparr>Cycles := sorted_cs\<rparr>)))"

subsection \<open>Suggestions\<close>

text \<open>The tally \<open>resourceTypes\<close> is a Go map of counters; a missing key reads as 0.\<close>

fun count_types :: "TfCycle \<Rightarrow> string list \<Rightarrow> (string \<Rightarrow> nat) \<Rightarrow> (string \<Rightarrow> nat)" where
  "count_types tc [] resourceTypes = resourceTypes"
| "count_types tc (nodeName # rest) resourceTypes =
     (case GetNodeByName tc nodeName of
        None \<Rightarrow> count_types tc rest resourceTypes
      | Some node \<Rightarrow>
          count_types tc rest
            (resourceTypes(ResourceType node := resourceTypes (ResourceType node) + 1)))"

fun hasDestroyAction :: "TfCycle \<Rightarrow> string list \<Rightarrow> bool" where
  "hasDestroyAction tc [] = False"
| "hasDestroyAction tc (nodeName # rest) =
     (case GetNodeByName tc nodeName of
        None \<Rightarrow> hasDestroyAction tc rest
      | Some node \<Rightarrow>
          if Action node = ActionDestroy \<or> Action node = ActionDestroyDeposed then True
          else hasDestroyAction tc rest)"

definition security_group_suggestions :: "string list" where
  "security_group_suggestions =
     [''Security group cycle detected: Remove mutual references between security groups'',
      ''Use separate aws_security_group_rule resources instead of inline rules'',
      ''Consider using data sources for existing security groups'']"

definition iam_suggestions :: "string list" where
  "iam_suggestions =
     [''IAM cycle detected: Separate role creation from policy attachment'',
      ''Use aws_iam_role_policy_attachment instead of inline policies'']"

definition destroy_suggestions :: "string list" where
  "destroy_suggestions =
     [''Destroy cycle detected: Add lifecycle { create_before_destroy = true }'',
      ''Review dependency order during resource replacement'']"

definition generic_suggestions :: "string list" where
  "generic_suggestions =
     [''Break circular dependencies by removing direct references'',
      ''Use data sources to reference existing resources'',
      ''Consider splitting resources across multiple Terraform runs'']"

definition GenerateSuggestions :: "TfCycle \<Rightarrow> string list \<Rightarrow> string list" where
  "GenerateSuggestions tc cycle =
     (let resourceTypes = count_types tc cycle (\<lambda>_. 0);
          s1 = (if resourceTypes ''aws_security_group'' \<ge> 2 then security_group_suggestions
                else []);
          s2 = (if resourceTypes ''aws_iam_role'' > 0 \<and> resourceTypes ''aws_iam_policy'' > 0
                then s1 @ iam_suggestions else s1);
          s3 = (if hasDestroyAction tc cycle then s2 @ destroy_suggestions else s2)
      in if length s3 = 0 then generic_suggestions else s3)"

section \<open>Notions used to state the properties\<close>

subsection \<open>Parser\<close>

text \<open>The cycle marker as a text: \<open>Error:\<close>, any white space, \<open>Cycle:\<close>.\<close>

definition has_marker :: "string \<Rightarrow> bool" where
  "has_marker t =
     (\<exists>pre ws rest. t = pre @ ''Error:'' @ ws @ ''Cycle:'' @ rest \<and> list_all is_space_re ws)"

text \<open>The nodes of the segments that parse, in the order of the segments.\<close>

definition survivors :: "string list \<Rightarrow> CycleNode list" where
  "survivors segs =
     List.map_filter
       (\<lambda>seg. case parseResource (TrimSpace seg) of Inl err \<Rightarrow> None | Inr node \<Rightarrow> Some node) segs"

definition survivors_of :: "string \<Rightarrow> CycleNode list" where
  "survivors_of t =
     (case cycleRegex_find t of None \<Rightarrow> [] | Some cycleText \<Rightarrow> survivors (splitResources cycleText))"

text \<open>A string holds a token \<open><type>.<name>\<close>: two non-empty runs of identifier
  characters with a dot between them, anywhere in it.\<close>

definition contains_type_name :: "string \<Rightarrow> bool" where
  "contains_type_name r =
     (\<exists>pre t n post. r = pre @ t @ ''.'' @ n @ post \<and> t \<noteq> [] \<and> n \<noteq> [] \<and>
        list_all is_ident t \<and> list_all is_ident n)"




fun cut_at :: "(nat \<Rightarrow> bool) \<Rightarrow> nat \<Rightarrow> string \<Rightarrow> string \<Rightarrow> string list" where
  "cut_at sep i piece [] = [piece]"
| "cut_at sep i piece (c # cs) =
     (if sep i then piece # cut_at sep (Suc i) [] cs else cut_at sep (Suc i) (piece @ [c]) cs)"




text \<open>The full identity as the data model words it: every module path segment followed
  by a dot, then \<open>type.name\<close>, then the instance key in brackets if there is one.\<close>

definition full_identity :: "CycleNode \<Rightarrow> string" where
  "full_identity n =
     concat (map (\<lambda>seg. seg @ ''.'') (ModulePath n)) @ ResourceType n @ ''.'' @ ResourceName n @
     (if InstanceKey n = [] then [] else ''['' @ InstanceKey n @ '']'')"

subsection \<open>Analyzer\<close>

text \<open>Every edge of a graph goes from the full name of one node to the full name of
  a node at another position.\<close>

definition edges_ok :: "CycleNode list \<Rightarrow> graph \<Rightarrow> bool" where
  "edges_ok nodes g =
     (\<forall>k x. x \<in> set (graph_get g k) \<longrightarrow>
        (\<exists>i j. i < length nodes \<and> j < length nodes \<and> i \<noteq> j \<and>
               k = FullName (nodes ! i) \<and> x = FullName (nodes ! j)))"

definition visited_set :: "dfs_state \<Rightarrow> string set" where
  "visited_set st = {x. visited st x}"

text \<open>A call of the search returned, and it only added to \<open>visited\<close> and \<open>cycles\<close>.\<close>

definition dfs_returns :: "dfs_state \<Rightarrow> (bool \<times> dfs_state) option \<Rightarrow> bool" where
  "dfs_returns st r =
     (case r of None \<Rightarrow> False
      | Some (b, st') \<Rightarrow> visited_set st \<subseteq> visited_set st' \<and> (\<exists>cs. cycles st' = cycles st @ cs))"

text \<open>The smallest identity of a cycle occurs in it once, as in every cycle whose
  identities are pairwise distinct.\<close>

definition unique_min :: "string list \<Rightarrow> bool" where
  "unique_min c = (c \<noteq> [] \<and> count_list c (Min (set c)) = 1)"

subsection \<open>Example inputs\<close>

definition destroy_in_module :: CycleNode where
  "destroy_in_module =
     \<lparr>ResourceType = ''aws_instance'', ResourceName = ''web'',
      ModulePath = [''module'', ''vpc''], InstanceKey = [], Action = ActionDestroy,
      Annotations = [], RawString = ''module.vpc.aws_instance.web (destroy)''\<rparr>"

definition normal_in_other_module :: CycleNode where
  "normal_in_other_module =
     \<lparr>ResourceType = ''aws_db_instance'', ResourceName = ''db'',
      ModulePath = [''module'', ''app''], InstanceKey = [], Action = ActionNormal,
      Annotations = [], RawString = ''module.app.aws_db_instance.db''\<rparr>"

definition normal_at_root :: CycleNode where
  "normal_at_root =
     \<lparr>ResourceType = ''aws_db_instance'', ResourceName = ''db'',
      ModulePath = [], InstanceKey = [], Action = ActionNormal,
      Annotations = [], RawString = ''aws_db_instance.db''\<rparr>"

definition deposed_at_root :: CycleNode where
  "deposed_at_root =
     \<lparr>ResourceType = ''aws_eip'', ResourceName = ''ip'',
      ModulePath = [], InstanceKey = [], Action = ActionDestroyDeposed,
      Annotations = [(''deposed_id'', ''1a2b3c4d'')],
      RawString = ''aws_eip.ip (destroy deposed 1a2b3c4d)''\<rparr>"

definition web_and_sg :: TfCycle where
  "web_and_sg =
     \<lparr>Nodes =
        [\<lparr>ResourceType = ''aws_instance'', ResourceName = ''web'',
          ModulePath = [''module'', ''vpc''], InstanceKey = ''0'', Action = ActionDestroy,
          Annotations = [], RawString = ''module.vpc.aws_instance.web[0] (destroy)''\<rparr>,
         \<lparr>ResourceType = ''aws_security_group'', ResourceName = ''sg'', ModulePath = [],
          InstanceKey = ''prod'', Action = ActionNormal, Annotations = [],
          RawString = ''aws_security_group.sg[\"prod\"]''\<rparr>],
      RawError = ''Error: Cycle: module.vpc.aws_instance.web[0] (destroy), aws_security_group.sg[\"prod\"]'',
      Cycles = []\<rparr>"

definition same_name_twice :: TfCycle where
  "same_name_twice =
     \<lparr>Nodes =
        [\<lparr>ResourceType = ''aws_instance'', ResourceName = ''web'', ModulePath = [],
          InstanceKey = [], Action = ActionDestroy, Annotations = [],
          RawString = ''aws_instance.web (destroy)''\<rparr>,
         \<lparr>ResourceType = ''aws_instance'', ResourceName = ''web'', ModulePath = [],
          InstanceKey = [], Action = ActionNormal, Annotations = [],
          RawString = ''aws_instance.web''\<rparr>],
      RawError = ''Error: Cycle: aws_instance.web (destroy), aws_instance.web'',
      Cycles = []\<rparr>"

definition one_node :: TfCycle where
  "one_node =
     \<lparr>Nodes =
        [\<lparr>ResourceType = ''aws_instance'', ResourceName = ''web'', ModulePath = [],
          InstanceKey = [], Action = ActionNormal, Annotations = [],
          RawString = ''aws_instance.web''\<rparr>],
      RawError = ''Error: Cycle: aws_instance.web'', Cycles = []\<rparr>"

definition same_node_twice :: TfCycle where
  "same_node_twice =
     \<lparr>Nodes =
        [\<lparr>ResourceType = ''aws_instance'', ResourceName = ''web'', ModulePath = [],
          InstanceKey = [], Action = ActionNormal, Annotations = [],
          RawString = ''aws_instance.web''\<rparr>,
         \<lparr>ResourceType = ''aws_instance'', ResourceName = ''web'', ModulePath = [],
          InstanceKey = [], Action = ActionNormal, Annotations = [],
          RawString = ''aws_instance.web''\<rparr>],
      RawError = ''Error: Cycle: aws_instance.web, aws_instance.web'', Cycles = []\<rparr>"

definition two_unrelated :: TfCycle where
  "two_unrelated =
     \<lparr>Nodes =
        [\<lparr>ResourceType = ''aws_instance'', ResourceName = ''web'', ModulePath = [],
          InstanceKey = [], Action = ActionNormal, Annotations = [],
          RawString = ''aws_instance.web''\<rparr>,
         \<lparr>ResourceType = ''aws_eip'', ResourceName = ''ip'', ModulePath = [],
          InstanceKey = [], Action = ActionNormal, Annotations = [],
          RawString = ''aws_eip.ip''\<rparr>],
      RawError = ''Error: Cycle: aws_instance.web, aws_eip.ip'', Cycles = []\<rparr>"

definition five_nodes :: TfCycle where
  "five_nodes =
     \<lparr>Nodes =
        [\<lparr>ResourceType = ''aws_eip'', ResourceName = ''ip'', ModulePath = [''module'', ''m1''],
          InstanceKey = [], Action = ActionDestroy, Annotations = [],
          RawString = ''module.m1.aws_eip.ip (destroy)''\<rparr>,
         \<lparr>ResourceType = ''aws_iam_role'', ResourceName = ''r'', ModulePath = [],
          InstanceKey = [], Action = ActionNormal, Annotations = [],
          RawString = ''aws_iam_role.r''\<rparr>,
         \<lparr>ResourceType = ''aws_iam_policy'', ResourceName = ''p'',
          ModulePath = [''module'', ''m1''],
          InstanceKey = [], Action = ActionNormal, Annotations = [],
          RawString = ''module.m1.aws_iam_policy.p''\<rparr>,
         \<lparr>ResourceType = ''aws_security_group'', ResourceName = ''a'', ModulePath = [],
          InstanceKey = [], Action = ActionNormal, Annotations = [],
          RawString = ''aws_security_group.a''\<rparr>,
         \<lparr>ResourceType = ''aws_security_group'', ResourceName = ''b'', ModulePath = [],
          InstanceKey = [], Action = ActionNormal, Annotations = [],
          RawString = ''aws_security_group.b''\<rparr>],
      RawError = [], Cycles = []\<rparr>"

section \<open>Lemmas on the parser\<close>

lemma strip_prefix_append: "strip_prefix p (p @ s) = Some s"
  by (induction p) auto

lemma strip_prefix_SomeD: "strip_prefix p s = Some r \<Longrightarrow> s = p @ r"
  by (induction p s rule: strip_prefix.induct) (auto split: if_splits)

lemma not_ident_dot: "\<not> is_ident (CHR ''.'')"
  by (simp add: is_ident_def less_eq_char_def)

lemma not_space_C: "\<not> is_space_re (CHR ''C'')"
  by (simp add: is_space_re_def)

lemma resourceRegex_at_SomeD:
  assumes "resourceRegex_at s = Some (t, n)"
  shows "\<exists>post. s = t @ ''.'' @ n @ post \<and> t \<noteq> [] \<and> n \<noteq> [] \<and>
           list_all is_ident t \<and> list_all is_ident n"
proof -
  from assms obtain r where t: "t = takeWhile is_ident s" "t \<noteq> []"
    and d: "dropWhile is_ident s = CHR ''.'' # r" and n: "n = takeWhile is_ident r" "n \<noteq> []"
    by (auto simp: resourceRegex_at_def Let_def split: if_splits list.splits)
  have "s = takeWhile is_ident s @ dropWhile is_ident s" by simp
  also have "\<dots> = t @ ''.'' @ n @ dropWhile is_ident r"
    unfolding d t n by simp
  finally have "s = t @ ''.'' @ n @ dropWhile is_ident r" .
  moreover have "list_all is_ident t" "list_all is_ident n"
    unfolding t n by (auto simp: list_all_iff dest: set_takeWhileD)
  ultimately show ?thesis using t(2) n(2) by blast
qed

lemma resourceRegex_at_complete:
  assumes "t \<noteq> []" "n \<noteq> []" "list_all is_ident t" "list_all is_ident n"
  shows "resourceRegex_at (t @ ''.'' @ n @ post) = Some (t, n @ takeWhile is_ident post)"
proof -
  have tk: "takeWhile is_ident (t @ ''.'' @ n @ post) = t"
    using assms(3) not_ident_dot by (simp add: list_all_iff takeWhile_tail)
  have dr: "dropWhile is_ident (t @ ''.'' @ n @ post) = ''.'' @ n @ post"
    using assms(3) not_ident_dot by (simp add: list_all_iff dropWhile_append2)
  have tn: "takeWhile is_ident (n @ post) = n @ takeWhile is_ident post"
    using assms(4) by (simp add: list_all_iff takeWhile_append2)
  show ?thesis
    unfolding resourceRegex_at_def Let_def tk dr using assms(1,2) tn by simp
qed

lemma resourceRegex_find_SomeD:
  "resourceRegex_find s = Some (t, n) \<Longrightarrow>
   \<exists>pre post. s = pre @ t @ ''.'' @ n @ post \<and> t \<noteq> [] \<and> n \<noteq> [] \<and>
      list_all is_ident t \<and> list_all is_ident n"
proof (induction s)
  case Nil
  then show ?case by simp
next
  case (Cons c cs)
  show ?case
  proof (cases "resourceRegex_at (c # cs)")
    case None
    with Cons.prems have "resourceRegex_find cs = Some (t, n)" by simp
    from Cons.IH [OF this] obtain pre post where
      "cs = pre @ t @ ''.'' @ n @ post" "t \<noteq> []" "n \<noteq> []" "list_all is_ident t" "list_all is_ident n"
      by blast
    then have "c # cs = (c # pre) @ t @ ''.'' @ n @ post" by simp
    with \<open>t \<noteq> []\<close> \<open>n \<noteq> []\<close> \<open>list_all is_ident t\<close> \<open>list_all is_ident n\<close>
    show ?thesis by blast
  next
    case (Some m)
    with Cons.prems have "resourceRegex_at (c # cs) = Some (t, n)" by simp
    from resourceRegex_at_SomeD [OF this] obtain post where
      "c # cs = [] @ t @ ''.'' @ n @ post" "t \<noteq> []" "n \<noteq> []" "list_all is_ident t" "list_all is_ident n"
      by auto
    then show ?thesis by blast
  qed
qed

lemma resourceRegex_find_prefix:
  "resourceRegex_at s \<noteq> None \<Longrightarrow> resourceRegex_find (pre @ s) \<noteq> None"
proof (induction pre)
  case Nil
  then show ?case by (cases s) (auto simp: resourceRegex_at_def)
next
  case (Cons c pre)
  then show ?case by (cases "resourceRegex_at (c # pre @ s)") auto
qed

lemma resourceRegex_find_iff: "resourceRegex_find r \<noteq> None \<longleftrightarrow> contains_type_name r"
proof
  assume "resourceRegex_find r \<noteq> None"
  then obtain t n where "resourceRegex_find r = Some (t, n)" by auto
  from resourceRegex_find_SomeD [OF this] show "contains_type_name r"
    unfolding contains_type_name_def by blast
next
  assume "contains_type_name r"
  then obtain pre t n post where r: "r = pre @ t @ ''.'' @ n @ post"
    and "t \<noteq> []" "n \<noteq> []" "list_all is_ident t" "list_all is_ident n"
    unfolding contains_type_name_def by blast
  then have "resourceRegex_at (t @ ''.'' @ n @ post) \<noteq> None"
    using resourceRegex_at_complete [of t n post] by simp
  from resourceRegex_find_prefix [OF this] show "resourceRegex_find r \<noteq> None"
    unfolding r .
qed


lemma parse_segments_survivors: "parse_segments segs nodes = nodes @ survivors segs"
  by (induction segs arbitrary: nodes)
    (auto simp: survivors_def List.map_filter_simps split: sum.splits)

lemma cycleRegex_at_SomeD:
  assumes "cycleRegex_at s = Some m"
  shows "\<exists>ws rest. s = ''Error:'' @ ws @ ''Cycle:'' @ rest \<and> list_all is_space_re ws \<and> rest \<noteq> []"
proof -
  from assms obtain r1 where r1: "strip_prefix ''Error:'' s = Some r1"
    by (auto simp: cycleRegex_at_def split: option.splits)
  with assms obtain r2 where r2: "strip_prefix ''Cycle:'' (dropWhile is_space_re r1) = Some r2"
    by (auto simp: cycleRegex_at_def split: option.splits)
  from assms r1 r2 have ne: "r2 \<noteq> []"
    by (auto simp: cycleRegex_at_def split: if_splits)
  have "r1 = takeWhile is_space_re r1 @ dropWhile is_space_re r1" by simp
  also have "\<dots> = takeWhile is_space_re r1 @ ''Cycle:'' @ r2"
    using strip_prefix_SomeD [OF r2] by simp
  finally have "s = ''Error:'' @ takeWhile is_space_re r1 @ ''Cycle:'' @ r2"
    using strip_prefix_SomeD [OF r1] by simp
  moreover have "list_all is_space_re (takeWhile is_space_re r1)"
    by (auto simp: list_all_iff dest: set_takeWhileD)
  ultimately show ?thesis using ne by blast
qed

lemma cycleRegex_at_complete:
  assumes "list_all is_space_re ws" "rest \<noteq> []"
  shows "cycleRegex_at (''Error:'' @ ws @ ''Cycle:'' @ rest) \<noteq> None"
proof -
  have 1: "strip_prefix ''Error:'' (''Error:'' @ ws @ ''Cycle:'' @ rest) = Some (ws @ ''Cycle:'' @ rest)"
    by (rule strip_prefix_append)
  have 2: "dropWhile is_space_re (ws @ ''Cycle:'' @ rest) = ''Cycle:'' @ rest"
    using assms(1) not_space_C by (simp add: list_all_iff dropWhile_append2)
  have 3: "strip_prefix ''Cycle:'' (''Cycle:'' @ rest) = Some rest"
    by (rule strip_prefix_append)
  have "cycleRegex_at (''Error:'' @ ws @ ''Cycle:'' @ rest) =
      (if dropWhile is_space_re rest \<noteq> [] then Some (dropWhile is_space_re rest)
       else if rest \<noteq> [] then Some [last rest] else None)"
    by (simp only: cycleRegex_at_def 1 2 3 option.case)
  then show ?thesis using assms(2) by simp
qed

lemma cycleRegex_find_SomeD:
  "cycleRegex_find t = Some m \<Longrightarrow>
   \<exists>pre ws rest. t = pre @ ''Error:'' @ ws @ ''Cycle:'' @ rest \<and> list_all is_space_re ws \<and> rest \<noteq> []"
proof (induction t)
  case Nil
  then show ?case by (simp add: cycleRegex_at_def)
next
  case (Cons c cs)
  show ?case
  proof (cases "cycleRegex_at (c # cs)")
    case None
    with Cons.prems have "cycleRegex_find cs = Some m" by simp
    from Cons.IH [OF this] obtain pre ws rest where
      "cs = pre @ ''Error:'' @ ws @ ''Cycle:'' @ rest" "list_all is_space_re ws" "rest \<noteq> []"
      by blast
    then have "c # cs = (c # pre) @ ''Error:'' @ ws @ ''Cycle:'' @ rest" by simp
    with \<open>list_all is_space_re ws\<close> \<open>rest \<noteq> []\<close> show ?thesis by blast
  next
    case (Some m')
    from cycleRegex_at_SomeD [OF this] obtain ws rest where
      "c # cs = [] @ ''Error:'' @ ws @ ''Cycle:'' @ rest" "list_all is_space_re ws" "rest \<noteq> []"
      by auto
    then show ?thesis by blast
  qed
qed

lemma cycleRegex_find_prefix:
  "cycleRegex_at s \<noteq> None \<Longrightarrow> cycleRegex_find (pre @ s) \<noteq> None"
proof (induction pre)
  case Nil
  then show ?case by (cases s) auto
next
  case (Cons c pre)
  then show ?case by (cases "cycleRegex_at (c # pre @ s)") auto
qed

lemma cycleRegex_find_iff:
  "cycleRegex_find t \<noteq> None \<longleftrightarrow>
   (\<exists>pre ws rest. t = pre @ ''Error:'' @ ws @ ''Cycle:'' @ rest \<and> list_all is_space_re ws \<and> rest \<noteq> [])"
proof
  assume "cycleRegex_find t \<noteq> None"
  then obtain m where "cycleRegex_find t = Some m" by auto
  from cycleRegex_find_SomeD [OF this]
  show "\<exists>pre ws rest. t = pre @ ''Error:'' @ ws @ ''Cycle:'' @ rest \<and> list_all is_space_re ws \<and> rest \<noteq> []" .
next
  assume "\<exists>pre ws rest. t = pre @ ''Error:'' @ ws @ ''Cycle:'' @ rest \<and> list_all is_space_re ws \<and> rest \<noteq> []"
  then obtain pre ws rest where t: "t = pre @ ''Error:'' @ ws @ ''Cycle:'' @ rest"
    and "list_all is_space_re ws" "rest \<noteq> []" by blast
  from cycleRegex_find_prefix [OF cycleRegex_at_complete [OF this(2,3)]]
  show "cycleRegex_find t \<noteq> None" unfolding t .
qed

lemma no_marker_no_match: "\<not> has_marker t \<Longrightarrow> cycleRegex_find t = None"
  using cycleRegex_find_iff [of t] unfolding has_marker_def by blast











text \<open>\<open>cut_at\<close> is a plain splitter: one piece more than there are separators, and the
  pieces put together are the text without the separators.\<close>

lemma length_cut_at:
  "length (cut_at sep i piece xs) = Suc (length (filter sep [i..<i + length xs]))"
proof (induction xs arbitrary: i piece)
  case Nil
  show ?case by simp
next
  case (Cons c cs)
  have u: "[i..<Suc (i + length cs)] = i # [Suc i..<Suc (i + length cs)]"
    by (rule upt_conv_Cons) simp
  show ?case using Cons [of "Suc i"] u by (simp del: upt_Suc)
qed

lemma concat_cut_at:
  "concat (cut_at sep i piece xs) =
     piece @ map snd (filter (\<lambda>(k, c). \<not> sep k) (zip [i..<i + length xs] xs))"
proof (induction xs arbitrary: i piece)
  case Nil
  show ?case by simp
next
  case (Cons c cs)
  have u: "[i..<Suc (i + length cs)] = i # [Suc i..<Suc (i + length cs)]"
    by (rule upt_conv_Cons) simp
  show ?case using Cons [of "Suc i"] u by (simp del: upt_Suc)
qed




section \<open>Lemmas on the heuristic graph\<close>

lemma map_of_assoc_set: "map_of (assoc_set g k v) = (map_of g)(k \<mapsto> v)"
  by (induction g k v rule: assoc_set.induct) auto

lemma graph_get_assoc_set:
  "graph_get (assoc_set g k v) k' = (if k' = k then v else graph_get g k')"
  by (simp add: graph_get_def map_of_assoc_set)

lemma keys_assoc_set: "fst ` set (assoc_set g k v) = insert k (fst ` set g)"
  by (induction g k v rule: assoc_set.induct) auto

lemma graph_get_Nil: "graph_get [] k = []"
  by (simp add: graph_get_def)

lemma graph_get_no_key: "k \<notin> fst ` set g \<Longrightarrow> graph_get g k = []"
proof -
  assume "k \<notin> fst ` set g"
  then have "map_of g k = None" by (simp add: map_of_eq_None_iff)
  then show ?thesis by (simp add: graph_get_def)
qed

lemma graph_get_in_entries: "graph_get g k \<noteq> [] \<Longrightarrow> (k, graph_get g k) \<in> set g"
  by (auto simp: graph_get_def split: option.splits dest: map_of_SomeD)

lemma allNodesHaveConnections_get:
  "allNodesHaveConnections g \<Longrightarrow> k \<in> fst ` set g \<Longrightarrow> graph_get g k \<noteq> []"
proof -
  assume a: "allNodesHaveConnections g" and k: "k \<in> fst ` set g"
  then obtain v where v: "map_of g k = Some v"
    by (cases "map_of g k") (auto simp: map_of_eq_None_iff)
  then have "(k, v) \<in> set g" by (rule map_of_SomeD)
  with a have "v \<noteq> []" by (auto simp: allNodesHaveConnections_def list_all_iff)
  with v show ?thesis by (simp add: graph_get_def)
qed

lemma edge_step_ok:
  "edges_ok nodes g \<Longrightarrow> i < length nodes \<Longrightarrow> j < length nodes \<Longrightarrow>
   edges_ok nodes (edge_step nodes i g j)"
  unfolding edges_ok_def edge_step_def
  by (auto simp: graph_get_assoc_set split: if_splits)

lemma edge_step_keys:
  "FullName (nodes ! i) \<in> fst ` set g \<Longrightarrow> fst ` set (edge_step nodes i g j) = fst ` set g"
  by (auto simp: edge_step_def keys_assoc_set)

lemma edge_step_mono:
  "set (graph_get g k) \<subseteq> set (graph_get (edge_step nodes i g j) k)"
  by (auto simp: edge_step_def graph_get_assoc_set)

lemma edge_row_aux:
  "edges_ok nodes g \<Longrightarrow> i < length nodes \<Longrightarrow> set js \<subseteq> {..<length nodes} \<Longrightarrow>
   FullName (nodes ! i) \<in> fst ` set g \<Longrightarrow>
   edges_ok nodes (foldl (edge_step nodes i) g js) \<and>
   fst ` set (foldl (edge_step nodes i) g js) = fst ` set g \<and>
   set (graph_get g k) \<subseteq> set (graph_get (foldl (edge_step nodes i) g js) k)"
proof (induction js arbitrary: g)
  case Nil
  then show ?case by simp
next
  case (Cons j js)
  have j: "j < length nodes" using Cons.prems(3) by simp
  have 1: "edges_ok nodes (edge_step nodes i g j)"
    by (rule edge_step_ok [OF Cons.prems(1,2) j])
  have 2: "fst ` set (edge_step nodes i g j) = fst ` set g"
    by (rule edge_step_keys [OF Cons.prems(4)])
  have 3: "set js \<subseteq> {..<length nodes}" using Cons.prems(3) by simp
  have 4: "FullName (nodes ! i) \<in> fst ` set (edge_step nodes i g j)"
    using 2 Cons.prems(4) by simp
  from Cons.IH [OF 1 Cons.prems(2) 3 4] 2 edge_step_mono [of g k nodes i j]
  show ?case by auto
qed

lemma edge_row_props:
  assumes "edges_ok nodes g" "i < length nodes" "FullName ` set nodes \<subseteq> fst ` set g"
  shows "edges_ok nodes (edge_row nodes g i)"
    and "fst ` set (edge_row nodes g i) = fst ` set g"
    and "set (graph_get g k) \<subseteq> set (graph_get (edge_row nodes g i) k)"
proof -
  have "FullName (nodes ! i) \<in> fst ` set g" using assms(2,3) by (auto simp: subset_iff)
  moreover have "set [0..<length nodes] \<subseteq> {..<length nodes}" by auto
  ultimately have "edges_ok nodes (foldl (edge_step nodes i) g [0..<length nodes]) \<and>
   fst ` set (foldl (edge_step nodes i) g [0..<length nodes]) = fst ` set g \<and>
   set (graph_get g k) \<subseteq> set (graph_get (foldl (edge_step nodes i) g [0..<length nodes]) k)"
    using assms(1,2) by (intro edge_row_aux)
  then
  show "edges_ok nodes (edge_row nodes g i)"
    and "fst ` set (edge_row nodes g i) = fst ` set g"
    and "set (graph_get g k) \<subseteq> set (graph_get (edge_row nodes g i) k)"
    by (auto simp: edge_row_def)
qed

lemma edge_rows_aux:
  "edges_ok nodes g \<Longrightarrow> set is \<subseteq> {..<length nodes} \<Longrightarrow> FullName ` set nodes \<subseteq> fst ` set g \<Longrightarrow>
   edges_ok nodes (foldl (edge_row nodes) g is) \<and>
   fst ` set (foldl (edge_row nodes) g is) = fst ` set g \<and>
   set (graph_get g k) \<subseteq> set (graph_get (foldl (edge_row nodes) g is) k)"
proof (induction "is" arbitrary: g)
  case Nil
  then show ?case by simp
next
  case (Cons i "is")
  have i: "i < length nodes" using Cons.prems(2) by simp
  note r = edge_row_props [OF Cons.prems(1) i Cons.prems(3)]
  have "set is \<subseteq> {..<length nodes}" using Cons.prems(2) by simp
  moreover have "FullName ` set nodes \<subseteq> fst ` set (edge_row nodes g i)"
    using r(2) Cons.prems(3) by simp
  ultimately show ?case using Cons.IH [OF r(1)] r(2) r(3) [of k] by auto
qed

lemma init_graph_keys:
  "fst ` set (foldl (\<lambda>g name. assoc_set g name []) g names) = fst ` set g \<union> set names"
  by (induction names arbitrary: g) (auto simp: keys_assoc_set)

lemma init_graph_get:
  "graph_get (foldl (\<lambda>g name. assoc_set g name []) g names) k =
     (if k \<in> set names then [] else graph_get g k)"
  by (induction names arbitrary: g) (auto simp: graph_get_assoc_set)

lemma heuristic_graph_props:
  shows heuristic_graph_edges: "edges_ok nodes (heuristic_adjacency nodes)"
    and heuristic_graph_keys: "fst ` set (heuristic_adjacency nodes) = FullName ` set nodes"
proof -
  let ?g0 = "foldl (\<lambda>g name. assoc_set g name []) ([] :: graph) (map FullName nodes)"
  have k0: "fst ` set ?g0 = FullName ` set nodes" by (simp add: init_graph_keys)
  have e0: "edges_ok nodes ?g0"
    by (simp add: edges_ok_def init_graph_get graph_get_Nil)
  have "set [0..<length nodes] \<subseteq> {..<length nodes}" by auto
  moreover have "FullName ` set nodes \<subseteq> fst ` set ?g0" using k0 by simp
  ultimately have "edges_ok nodes (foldl (edge_row nodes) ?g0 [0..<length nodes]) \<and>
   fst ` set (foldl (edge_row nodes) ?g0 [0..<length nodes]) = fst ` set ?g0"
    using edge_rows_aux [OF e0, of "[0..<length nodes]" k] by blast
  with k0
  show "edges_ok nodes (heuristic_adjacency nodes)"
    and "fst ` set (heuristic_adjacency nodes) = FullName ` set nodes"
    by (auto simp: heuristic_adjacency_def heuristic_graph_def)
qed

lemma foldl_edge_step_mono:
  "set (graph_get g k) \<subseteq> set (graph_get (foldl (edge_step nodes i) g js) k)"
proof (induction js arbitrary: g)
  case Nil
  show ?case by simp
next
  case (Cons j js)
  from edge_step_mono [of g k nodes i j] Cons [of "edge_step nodes i g j"]
  show ?case by auto
qed

lemma foldl_edge_row_mono:
  "set (graph_get g k) \<subseteq> set (graph_get (foldl (edge_row nodes) g is) k)"
proof (induction "is" arbitrary: g)
  case Nil
  show ?case by simp
next
  case (Cons i "is")
  from foldl_edge_step_mono [of g k nodes i "[0..<length nodes]"]
    Cons [of "edge_row nodes g i"]
  show ?case by (auto simp: edge_row_def)
qed

lemma foldl_edge_step_adds:
  "j \<in> set js \<Longrightarrow> i \<noteq> j \<Longrightarrow> likelyDependency (nodes ! i) (nodes ! j) \<Longrightarrow>
   FullName (nodes ! j) \<in> set (graph_get (foldl (edge_step nodes i) g js) (FullName (nodes ! i)))"
proof (induction js arbitrary: g)
  case Nil
  then show ?case by simp
next
  case (Cons j' js)
  show ?case
  proof (cases "j' = j")
    case True
    have "FullName (nodes ! j) \<in> set (graph_get (edge_step nodes i g j) (FullName (nodes ! i)))"
      using Cons.prems(2,3) by (simp add: edge_step_def graph_get_assoc_set)
    with foldl_edge_step_mono [of "edge_step nodes i g j" "FullName (nodes ! i)" nodes i js] True
    show ?thesis by auto
  next
    case False
    with Cons show ?thesis by simp
  qed
qed

lemma foldl_edge_row_adds:
  "i \<in> set is \<Longrightarrow> j < length nodes \<Longrightarrow> i \<noteq> j \<Longrightarrow> likelyDependency (nodes ! i) (nodes ! j) \<Longrightarrow>
   FullName (nodes ! j) \<in> set (graph_get (foldl (edge_row nodes) g is) (FullName (nodes ! i)))"
proof (induction "is" arbitrary: g)
  case Nil
  then show ?case by simp
next
  case (Cons i' "is")
  show ?case
  proof (cases "i' = i")
    case True
    have "j \<in> set [0..<length nodes]" using Cons.prems(2) by simp
    from foldl_edge_step_adds [OF this Cons.prems(3,4), of g]
    have "FullName (nodes ! j) \<in> set (graph_get (edge_row nodes g i) (FullName (nodes ! i)))"
      by (simp add: edge_row_def)
    with foldl_edge_row_mono [of "edge_row nodes g i" "FullName (nodes ! i)" nodes "is"] True
    show ?thesis by auto
  next
    case False
    with Cons show ?thesis by simp
  qed
qed

lemma heuristic_graph_edge:
  assumes "i < length nodes" "j < length nodes" "i \<noteq> j"
    and "likelyDependency (nodes ! i) (nodes ! j)"
  shows "FullName (nodes ! j) \<in> set (graph_get (heuristic_adjacency nodes) (FullName (nodes ! i)))"
proof -
  have "i \<in> set [0..<length nodes]" using assms(1) by simp
  from foldl_edge_row_adds [OF this assms(2,3,4)] show ?thesis
    by (simp add: heuristic_adjacency_def heuristic_graph_def)
qed

text \<open>The last rule of \<open>likelyDependency\<close> compares the action with \<open>ActionDestroy\<close>
  alone: where no earlier rule applies, a node with the action \<open>destroy deposed\<close>
  gets no edge from it.\<close>

lemma likelyDependency_destroy_rule:
  "ModulePath from = [] \<or> ModulePath to = [] \<Longrightarrow>
   ResourceType from \<noteq> ''aws_security_group'' \<Longrightarrow>
   ResourceType from \<noteq> ''aws_instance'' \<Longrightarrow>
   \<not> HasPrefix (ResourceType from) ''aws_iam'' \<Longrightarrow>
   likelyDependency from to \<longleftrightarrow> Action from = ActionDestroy \<and> Action to \<noteq> ActionDestroy"
  by (auto simp: likelyDependency_def)

lemma destroy_deposed_no_edge:
  "parseResource ''aws_eip.ip (destroy deposed 1a2b3c4d)'' = Inr deposed_at_root"
  "heuristic_adjacency [deposed_at_root, normal_at_root] =
     [(''aws_eip.ip'', []), (''aws_db_instance.db'', [])]"
  by code_simp+


text \<open>The ring of \<open>buildSequentialFallback\<close>: its edges stay among the names, and with
  pairwise distinct names every name points to the next one.\<close>

lemma fallback_fold_closed:
  "(\<forall>k. set (graph_get g k) \<subseteq> U) \<Longrightarrow> (\<forall>i\<in>set is. f i \<in> U) \<Longrightarrow>
   \<forall>k. set (graph_get (foldl (\<lambda>g i. assoc_set g (names ! i) [f i]) g is) k) \<subseteq> U"
  by (induction "is" arbitrary: g) (auto simp: graph_get_assoc_set)

lemma buildSequentialFallback_closed:
  "set (graph_get (buildSequentialFallback nodeNames) k) \<subseteq> set nodeNames"
proof -
  have "\<forall>i\<in>set [0..<length nodeNames]. nodeNames ! ((i + 1) mod length nodeNames) \<in> set nodeNames"
  proof
    fix i assume "i \<in> set [0..<length nodeNames]"
    then have "0 < length nodeNames" by auto
    then have "(i + 1) mod length nodeNames < length nodeNames" by simp
    then show "nodeNames ! ((i + 1) mod length nodeNames) \<in> set nodeNames" by (rule nth_mem)
  qed
  moreover have "\<forall>k. set (graph_get [] k) \<subseteq> set nodeNames" by (simp add: graph_get_Nil)
  ultimately show ?thesis
    unfolding buildSequentialFallback_def
    using fallback_fold_closed [of "[]" "set nodeNames" "[0..<length nodeNames]"
        "\<lambda>i. nodeNames ! ((i + 1) mod length nodeNames)" nodeNames]
    by blast
qed

lemma fallback_fold_get:
  assumes d: "distinct names"
  shows "distinct is \<Longrightarrow> set is \<subseteq> {..<length names} \<Longrightarrow>
     (\<forall>i\<in>set is. graph_get (foldl (\<lambda>g i. assoc_set g (names ! i) [f i]) g is) (names ! i) = [f i])
     \<and> (\<forall>k. k \<notin> (\<lambda>i. names ! i) ` set is \<longrightarrow>
           graph_get (foldl (\<lambda>g i. assoc_set g (names ! i) [f i]) g is) k = graph_get g k)"
proof (induction "is" arbitrary: g)
  case Nil
  then show ?case by simp
next
  case (Cons j js)
  let ?g1 = "assoc_set g (names ! j) [f j]"
  have dj: "distinct js" "j \<notin> set js" "set js \<subseteq> {..<length names}" "j < length names"
    using Cons.prems by auto
  note IH = Cons.IH [OF dj(1) dj(3), of ?g1]
  have jn: "names ! j \<notin> (\<lambda>i. names ! i) ` set js"
  proof
    assume "names ! j \<in> (\<lambda>i. names ! i) ` set js"
    then obtain i where "i \<in> set js" "names ! j = names ! i" by auto
    moreover from this dj(3) have "i < length names" by auto
    ultimately show False using d dj(2,4) by (auto simp: nth_eq_iff_index_eq)
  qed
  show ?case
  proof (intro conjI ballI allI impI)
    fix i assume "i \<in> set (j # js)"
    then consider "i = j" | "i \<in> set js" by auto
    then show "graph_get (foldl (\<lambda>g i. assoc_set g (names ! i) [f i]) g (j # js)) (names ! i) = [f i]"
    proof cases
      case 1
      with IH jn show ?thesis by (simp add: graph_get_assoc_set)
    next
      case 2
      with IH show ?thesis by simp
    qed
  next
    fix k assume "k \<notin> (\<lambda>i. names ! i) ` set (j # js)"
    then have "k \<notin> (\<lambda>i. names ! i) ` set js" "k \<noteq> names ! j" by auto
    with IH show "graph_get (foldl (\<lambda>g i. assoc_set g (names ! i) [f i]) g (j # js)) k = graph_get g k"
      by (simp add: graph_get_assoc_set)
  qed
qed

lemma buildSequentialFallback_get:
  assumes "distinct nodeNames" "i < length nodeNames"
  shows "graph_get (buildSequentialFallback nodeNames) (nodeNames ! i) =
     [nodeNames ! ((i + 1) mod length nodeNames)]"
proof -
  have "distinct [0..<length nodeNames]" "set [0..<length nodeNames] \<subseteq> {..<length nodeNames}"
    "i \<in> set [0..<length nodeNames]"
    using assms(2) by auto
  with fallback_fold_get [OF assms(1), of "[0..<length nodeNames]"
      "\<lambda>i. nodeNames ! ((i + 1) mod length nodeNames)" "[]"]
  show ?thesis unfolding buildSequentialFallback_def by blast
qed

text \<open>The graph the search runs on: its edges stay among the full names, and with at
  least two pairwise distinct names every name has a first neighbour other than itself.\<close>

lemma heuristic_graph_closed:
  "set (graph_get (heuristic_adjacency nodes) k) \<subseteq> FullName ` set nodes"
proof
  fix x assume "x \<in> set (graph_get (heuristic_adjacency nodes) k)"
  with heuristic_graph_edges [of nodes] obtain j where "j < length nodes" "x = FullName (nodes ! j)"
    unfolding edges_ok_def by blast
  then show "x \<in> FullName ` set nodes" by simp
qed

lemma buildHypotheticalGraph_closed:
  "set (graph_get (buildHypotheticalGraph nodes (map FullName nodes)) k) \<subseteq> FullName ` set nodes"
  using heuristic_graph_closed [of nodes k] buildSequentialFallback_closed [of "map FullName nodes" k]
  by (auto simp: buildHypotheticalGraph_def heuristic_adjacency_def Let_def)

lemma buildHypotheticalGraph_first_neighbor:
  assumes d: "distinct (map FullName nodes)" and n: "2 \<le> length nodes"
    and k: "k \<in> FullName ` set nodes"
  shows "graph_get (buildHypotheticalGraph nodes (map FullName nodes)) k \<noteq> [] \<and>
         hd (graph_get (buildHypotheticalGraph nodes (map FullName nodes)) k) \<in> FullName ` set nodes \<and>
         hd (graph_get (buildHypotheticalGraph nodes (map FullName nodes)) k) \<noteq> k"
proof (cases "allNodesHaveConnections (heuristic_adjacency nodes)")
  case True
  then have eq: "buildHypotheticalGraph nodes (map FullName nodes) = heuristic_adjacency nodes"
    by (simp add: buildHypotheticalGraph_def heuristic_adjacency_def)
  have ne: "graph_get (heuristic_adjacency nodes) k \<noteq> []"
    using allNodesHaveConnections_get [OF True] k by (simp add: heuristic_graph_keys)
  then have h: "hd (graph_get (heuristic_adjacency nodes) k) \<in> set (graph_get (heuristic_adjacency nodes) k)"
    by simp
  with heuristic_graph_edges [of nodes] obtain i j where
    ij: "i < length nodes" "j < length nodes" "i \<noteq> j" "k = FullName (nodes ! i)"
      "hd (graph_get (heuristic_adjacency nodes) k) = FullName (nodes ! j)"
    unfolding edges_ok_def by blast
  have "FullName (nodes ! i) \<noteq> FullName (nodes ! j)"
    using d ij(1,2,3) by (auto simp: distinct_conv_nth)
  with ij ne show ?thesis unfolding eq by auto
next
  case False
  then have eq: "buildHypotheticalGraph nodes (map FullName nodes) =
      buildSequentialFallback (map FullName nodes)"
    by (simp add: buildHypotheticalGraph_def heuristic_adjacency_def)
  from k obtain i where i: "i < length nodes" "k = map FullName nodes ! i"
    by (auto simp: in_set_conv_nth)
  let ?j = "(i + 1) mod length nodes"
  have j: "?j < length nodes" "?j \<noteq> i" using n i(1)
    by (auto simp: mod_Suc)
  have g: "graph_get (buildSequentialFallback (map FullName nodes)) k = [map FullName nodes ! ?j]"
    using buildSequentialFallback_get [OF d, of i] i by simp
  have "map FullName nodes ! ?j \<noteq> map FullName nodes ! i"
    using d j i(1) by (simp add: nth_eq_iff_index_eq del: nth_map)
  moreover have "map FullName nodes ! ?j \<in> FullName ` set nodes" using j(1) by auto
  ultimately show ?thesis unfolding eq g using i(2) by simp
qed

text \<open>Deduplication keeps a prefix of what it has, drops every cycle shorter than two,
  and keeps the first cycle whenever it has two elements or more.\<close>

lemma deduplicate_loop_prefix: "\<exists>ys. deduplicate_loop cs seen unique = unique @ ys"
  by (induction cs seen unique rule: deduplicate_loop.induct) (auto simp: Let_def)

lemma deduplicate_loop_length:
  "d \<in> set (deduplicate_loop cs seen unique) \<Longrightarrow> d \<in> set unique \<or> (d \<in> set cs \<and> 2 \<le> length d)"
  by (induction cs seen unique rule: deduplicate_loop.induct) (auto simp: Let_def split: if_splits)

lemma deduplicateCycles_length: "d \<in> set (deduplicateCycles cs) \<Longrightarrow> d \<in> set cs \<and> 2 \<le> length d"
  using deduplicate_loop_length [of d cs "{}" "[]"] by (simp add: deduplicateCycles_def)

lemma deduplicateCycles_first:
  "2 \<le> length c \<Longrightarrow> \<exists>ys. deduplicateCycles (c # cs) = c # ys"
  using deduplicate_loop_prefix [of cs "{Join (normalizeCycle c) '',''}" "[c]"]
  by (simp add: deduplicateCycles_def Let_def)

section \<open>Lemmas on the search\<close>

lemma dfs_returns_SomeI:
  "visited_set st \<subseteq> visited_set st' \<Longrightarrow> cycles st' = cycles st @ cs \<Longrightarrow>
   dfs_returns st (Some (b, st'))"
  by (auto simp: dfs_returns_def)

lemma dfs_returns_trans:
  "dfs_returns st (Some (b, st1)) \<Longrightarrow> dfs_returns st1 r \<Longrightarrow> dfs_returns st r"
  by (auto simp: dfs_returns_def split: option.splits)

lemma card_unvisited_mark:
  assumes "finite U" "node \<in> U" "\<not> visited st node" "card (U - visited_set st) \<le> Suc fuel"
  shows "card (U - visited_set (st\<lparr>visited := (visited st)(node := True),
             recStack := (recStack st)(node := True)\<rparr>)) \<le> fuel"
proof -
  have eq: "visited_set (st\<lparr>visited := (visited st)(node := True),
             recStack := (recStack st)(node := True)\<rparr>) = insert node (visited_set st)"
    by (auto simp: visited_set_def)
  have mem: "node \<in> U - visited_set st" using assms by (simp add: visited_set_def)
  have finD: "finite (U - visited_set st)" using assms(1) by simp
  have "U - insert node (visited_set st) = (U - visited_set st) - {node}" by auto
  then have "card (U - insert node (visited_set st)) < card (U - visited_set st)"
    using card_Diff1_less [OF finD mem] by simp
  with assms(4) show ?thesis unfolding eq by simp
qed

lemma card_unvisited_mono:
  assumes "finite U" "visited_set st \<subseteq> visited_set st'" "card (U - visited_set st) \<le> fuel"
  shows "card (U - visited_set st') \<le> fuel"
proof -
  have "U - visited_set st' \<subseteq> U - visited_set st" using assms(2) by auto
  then have "card (U - visited_set st') \<le> card (U - visited_set st)"
    using assms(1) by (simp add: card_mono)
  with assms(3) show ?thesis by simp
qed

lemma dfs_total_aux:
  fixes U :: "string set"
  assumes fin: "finite U"
  shows "(\<forall>k. set (graph_get g k) \<subseteq> U) \<longrightarrow> node \<in> U \<longrightarrow> \<not> visited st node \<longrightarrow>
          card (U - visited_set st) \<le> fuel \<longrightarrow> dfs_returns st (dfs fuel g node path st)"
    and "(\<forall>k. set (graph_get g2 k) \<subseteq> U) \<longrightarrow> set nbrs \<subseteq> U \<longrightarrow>
          card (U - visited_set st2) \<le> fuel2 \<longrightarrow>
          dfs_returns st2 (dfs_neighbors fuel2 g2 node2 path2 nbrs st2)"
proof (induction fuel g node path st and fuel2 g2 node2 path2 nbrs st2
    rule: dfs_dfs_neighbors.induct)
  case (1 g node path st)
  show ?case
  proof (intro impI)
    assume "node \<in> U" "\<not> visited st node" "card (U - visited_set st) \<le> 0"
    then have "node \<in> U - visited_set st" "U - visited_set st = {}"
      using fin by (simp_all add: visited_set_def)
    then show "dfs_returns st (dfs 0 g node path st)" by simp
  qed
next
  case (2 fuel g node path st)
  let ?st1 = "st\<lparr>visited := (visited st)(node := True),
             recStack := (recStack st)(node := True)\<rparr>"
  show ?case
  proof (intro impI)
    assume cl: "\<forall>k. set (graph_get g k) \<subseteq> U" and inU: "node \<in> U"
      and nv: "\<not> visited st node" and c: "card (U - visited_set st) \<le> Suc fuel"
    have "card (U - visited_set ?st1) \<le> fuel"
      by (rule card_unvisited_mark [OF fin inU nv c])
    with 2 cl have r: "dfs_returns ?st1
        (dfs_neighbors fuel g node (path @ [node]) (graph_get g node) ?st1)"
      by simp
    have "dfs_returns st (Some (False, ?st1))"
      by (auto simp: dfs_returns_def visited_set_def)
    from dfs_returns_trans [OF this r]
    show "dfs_returns st (dfs (Suc fuel) g node path st)" by simp
  qed
next
  case (3 fuel g node path st)
  show ?case by (simp add: dfs_returns_def visited_set_def)
next
  case (4 fuel g node path neighbor rest st)
  show ?case
  proof (intro impI)
    assume cl: "\<forall>k. set (graph_get g k) \<subseteq> U" and sub: "set (neighbor # rest) \<subseteq> U"
      and c: "card (U - visited_set st) \<le> fuel"
    show "dfs_returns st (dfs_neighbors fuel g node path (neighbor # rest) st)"
    proof (cases "visited st neighbor")
      case False
      with 4(1) cl sub c have r1: "dfs_returns st (dfs fuel g neighbor path st)" by simp
      then obtain found st' where eq: "dfs fuel g neighbor path st = Some (found, st')"
        by (auto simp: dfs_returns_def split: option.splits)
      show ?thesis
      proof (cases found)
        case True
        with False eq r1 show ?thesis by simp
      next
        case nf: False
        from r1 eq have mono: "visited_set st \<subseteq> visited_set st'"
          by (simp add: dfs_returns_def)
        have "card (U - visited_set st') \<le> fuel"
          by (rule card_unvisited_mono [OF fin mono c])
        with 4(2) [OF False eq refl nf] cl sub
        have "dfs_returns st' (dfs_neighbors fuel g node path rest st')" by simp
        with r1 eq have "dfs_returns st (dfs_neighbors fuel g node path rest st')"
          by (auto intro: dfs_returns_trans)
        with False eq nf show ?thesis by simp
      qed
    next
      case vis: True
      show ?thesis
      proof (cases "recStack st neighbor")
        case True
        with vis show ?thesis
          by (auto simp: dfs_returns_def visited_set_def split: option.splits)
      next
        case False
        with 4(3) vis cl sub c show ?thesis by simp
      qed
    qed
  qed
qed

lemma cycleStart_in: "x \<in> set path \<Longrightarrow> \<exists>i<length path. cycleStart path x = Some i"
  by (induction path) auto

lemma cycleStart_append: "x \<in> set path \<Longrightarrow> cycleStart (path @ ys) x = cycleStart path x"
  by (induction path) auto

lemma cycleStart_bound: "cycleStart path x = Some i \<Longrightarrow> i < length path"
  by (induction path arbitrary: i) (auto split: if_splits)

text \<open>When every name has a first neighbour other than itself and nothing but the
  current path is visited, the search follows first neighbours until it meets the path
  again: it returns \<open>true\<close> and adds one cycle of at least two names.\<close>

lemma dfs_first_chase:
  fixes U :: "string set"
  assumes fin: "finite U"
    and nbr: "\<And>k. k \<in> U \<Longrightarrow> graph_get g k \<noteq> [] \<and> hd (graph_get g k) \<in> U \<and> hd (graph_get g k) \<noteq> k"
  shows "node \<in> U \<Longrightarrow> \<not> visited st node \<Longrightarrow> (\<forall>x. visited st x = (x \<in> set path)) \<Longrightarrow>
     (\<forall>x. recStack st x = (x \<in> set path)) \<Longrightarrow> card (U - visited_set st) \<le> fuel \<Longrightarrow>
     \<exists>c st'. dfs fuel g node path st = Some (True, st') \<and> cycles st' = cycles st @ [c] \<and>
        2 \<le> length c \<and> visited_set st \<subseteq> visited_set st'"
proof (induction fuel arbitrary: node path st)
  case 0
  then have "node \<in> U - visited_set st" "U - visited_set st = {}"
    using fin by (simp_all add: visited_set_def)
  then show ?case by simp
next
  case (Suc fuel)
  let ?st1 = "st\<lparr>visited := (visited st)(node := True),
             recStack := (recStack st)(node := True)\<rparr>"
  let ?path1 = "path @ [node]"
  from nbr [OF Suc.prems(1)] obtain nb rest where
    g: "graph_get g node = nb # rest" and nbU: "nb \<in> U" and nbne: "nb \<noteq> node"
    by (cases "graph_get g node") auto
  have c1: "card (U - visited_set ?st1) \<le> fuel"
    by (rule card_unvisited_mark [OF fin Suc.prems(1,2,5)])
  have v1: "\<forall>x. visited ?st1 x = (x \<in> set ?path1)" using Suc.prems(3) by auto
  have r1: "\<forall>x. recStack ?st1 x = (x \<in> set ?path1)" using Suc.prems(4) by auto
  have sub1: "visited_set st \<subseteq> visited_set ?st1" by (auto simp: visited_set_def)
  show ?case
  proof (cases "visited ?st1 nb")
    case False
    from Suc.IH [OF nbU False v1 r1 c1] obtain c st' where
      r: "dfs fuel g nb ?path1 ?st1 = Some (True, st')" "cycles st' = cycles ?st1 @ [c]"
        "2 \<le> length c" "visited_set ?st1 \<subseteq> visited_set st'"
      by blast
    have "dfs (Suc fuel) g node path st = Some (True, st')"
      using g False r(1) nbne by simp
    moreover have "cycles st' = cycles st @ [c]" using r(2) by simp
    moreover have "visited_set st \<subseteq> visited_set st'" using sub1 r(4) by blast
    ultimately show ?thesis using r(3) by blast
  next
    case True
    then have "visited st nb" using nbne by simp
    then have inp: "nb \<in> set path" using Suc.prems(3) by simp
    then obtain i where i: "i < length path" "cycleStart path nb = Some i"
      using cycleStart_in by blast
    then have cs: "cycleStart ?path1 nb = Some i" using inp by (simp add: cycleStart_append)
    have rs: "recStack ?st1 nb" using r1 inp by simp
    let ?st' = "?st1\<lparr>cycles := cycles ?st1 @ [drop i ?path1]\<rparr>"
    have "dfs (Suc fuel) g node path st = Some (True, ?st')"
      using g True rs cs nbne by simp
    moreover have "cycles ?st' = cycles st @ [drop i ?path1]" by simp
    moreover have "2 \<le> length (drop i ?path1)" using i(1) by simp
    moreover have "visited_set st \<subseteq> visited_set ?st'" by (auto simp: visited_set_def)
    ultimately show ?thesis by blast
  qed
qed

lemma dfs_roots_total:
  fixes U :: "string set"
  assumes fin: "finite U" and cl: "\<forall>k. set (graph_get g k) \<subseteq> U"
  shows "set roots \<subseteq> U \<Longrightarrow> card (U - visited_set st) \<le> fuel \<Longrightarrow>
     \<exists>st' cs. dfs_roots fuel g roots st = Some st' \<and> cycles st' = cycles st @ cs"
proof (induction roots arbitrary: st)
  case Nil
  then show ?case by simp
next
  case (Cons node rest)
  show ?case
  proof (cases "visited st node")
    case True
    with Cons show ?thesis by simp
  next
    case False
    have "dfs_returns st (dfs fuel g node [] st)"
      using dfs_total_aux(1) [OF fin, of g node st fuel "[]"] cl Cons.prems False by simp
    then obtain b st1 cs1 where r: "dfs fuel g node [] st = Some (b, st1)"
      "visited_set st \<subseteq> visited_set st1" "cycles st1 = cycles st @ cs1"
      by (auto simp: dfs_returns_def split: option.splits)
    have "card (U - visited_set st1) \<le> fuel"
      by (rule card_unvisited_mono [OF fin r(2) Cons.prems(2)])
    with Cons.IH [of st1] Cons.prems(1) obtain st' cs where
      "dfs_roots fuel g rest st1 = Some st'" "cycles st' = cycles st1 @ cs" by auto
    with r False show ?thesis by simp
  qed
qed

lemma card_names_fuel:
  "length nodes \<le> fuel \<Longrightarrow>
   card (FullName ` set nodes - visited_set \<lparr>visited = (\<lambda>_. False), recStack = (\<lambda>_. False), cycles = []\<rparr>) \<le> fuel"
proof -
  assume "length nodes \<le> fuel"
  moreover have "card (FullName ` set nodes) \<le> length nodes"
    using card_length [of "map FullName nodes"] by simp
  ultimately show ?thesis by (simp add: visited_set_def)
qed

lemma findCyclesInGraph_total:
  assumes "length nodes \<le> fuel"
  shows "\<exists>cs. findCyclesInGraph fuel (buildHypotheticalGraph nodes (map FullName nodes))
            (map FullName nodes) = Some cs \<and> (\<forall>c\<in>set cs. 2 \<le> length c)"
proof -
  let ?g = "buildHypotheticalGraph nodes (map FullName nodes)"
  let ?U = "FullName ` set nodes"
  let ?st0 = "\<lparr>visited = (\<lambda>_. False), recStack = (\<lambda>_. False), cycles = []\<rparr>"
  have fin: "finite ?U" by simp
  have cl: "\<forall>k. set (graph_get ?g k) \<subseteq> ?U" using buildHypotheticalGraph_closed by blast
  have "set (map FullName nodes) \<subseteq> ?U" by simp
  from dfs_roots_total [OF fin cl this card_names_fuel [OF assms]]
  obtain st' where "dfs_roots fuel ?g (map FullName nodes) ?st0 = Some st'" by blast
  then show ?thesis
    by (auto simp: findCyclesInGraph_def dest: deduplicateCycles_length)
qed

lemma findCyclesInGraph_nonempty:
  assumes f: "length nodes \<le> fuel" and d: "distinct (map FullName nodes)" and n: "2 \<le> length nodes"
  shows "\<exists>c cs. findCyclesInGraph fuel (buildHypotheticalGraph nodes (map FullName nodes))
            (map FullName nodes) = Some (c # cs)"
proof -
  let ?g = "buildHypotheticalGraph nodes (map FullName nodes)"
  let ?U = "FullName ` set nodes"
  let ?st0 = "\<lparr>visited = (\<lambda>_. False), recStack = (\<lambda>_. False), cycles = []\<rparr>"
  have fin: "finite ?U" by simp
  have cl: "\<forall>k. set (graph_get ?g k) \<subseteq> ?U" using buildHypotheticalGraph_closed by blast
  from n obtain n0 rest where nodes: "nodes = n0 # rest" by (cases nodes) auto
  have root: "FullName n0 \<in> ?U" by (simp add: nodes)
  have c0: "card (?U - visited_set ?st0) \<le> fuel" by (rule card_names_fuel [OF f])
  have "\<exists>c st'. dfs fuel ?g (FullName n0) [] ?st0 = Some (True, st') \<and>
      cycles st' = cycles ?st0 @ [c] \<and> 2 \<le> length c \<and> visited_set ?st0 \<subseteq> visited_set st'"
    by (rule dfs_first_chase [OF fin buildHypotheticalGraph_first_neighbor [OF d n] root _ _ _ c0])
      simp_all
  then obtain c st1 where 1: "dfs fuel ?g (FullName n0) [] ?st0 = Some (True, st1)"
    "cycles st1 = [c]" "2 \<le> length c" "visited_set ?st0 \<subseteq> visited_set st1"
    by auto
  have c1: "card (?U - visited_set st1) \<le> fuel"
    by (rule card_unvisited_mono [OF fin 1(4) c0])
  have "set (map FullName rest) \<subseteq> ?U" by (auto simp: nodes)
  from dfs_roots_total [OF fin cl this c1] obtain st2 cs where
    2: "dfs_roots fuel ?g (map FullName rest) st1 = Some st2" "cycles st2 = cycles st1 @ cs"
    by blast
  have "dfs_roots fuel ?g (map FullName nodes) ?st0 = Some st2"
    using 1(1) 2(1) by (simp add: nodes)
  moreover have "cycles st2 = c # cs" using 1(2) 2(2) by simp
  ultimately have "findCyclesInGraph fuel ?g (map FullName nodes) = Some (deduplicateCycles (c # cs))"
    by (simp add: findCyclesInGraph_def)
  with deduplicateCycles_first [OF 1(3), of cs] show ?thesis by auto
qed

text \<open>The fuel is an artefact of the model: once a call returns, it returns the same
  with any larger fuel.\<close>

lemma dfs_fuel_Suc:
  "dfs fuel g node path st = Some r \<longrightarrow> dfs (Suc fuel) g node path st = Some r"
  "dfs_neighbors fuel2 g2 node2 path2 nbrs st2 = Some r2 \<longrightarrow>
   dfs_neighbors (Suc fuel2) g2 node2 path2 nbrs st2 = Some r2"
proof (induction fuel g node path st and fuel2 g2 node2 path2 nbrs st2
    arbitrary: r and r2 rule: dfs_dfs_neighbors.induct)
  case (1 g node path st)
  show ?case by simp
next
  case (2 fuel g node path st)
  then show ?case by simp
next
  case (3 fuel g node path st)
  show ?case by simp
next
  case (4 fuel g node path neighbor rest st)
  show ?case
  proof (cases "visited st neighbor")
    case True
    with 4(3) show ?thesis by (cases "recStack st neighbor") simp_all
  next
    case False
    show ?thesis
    proof (cases "dfs fuel g neighbor path st")
      case None
      with False show ?thesis by simp
    next
      case (Some x)
      obtain found st' where x: "x = (found, st')" by (cases x)
      from 4(1) [OF False] Some x
      have s: "dfs (Suc fuel) g neighbor path st = Some (found, st')" by simp
      show ?thesis
      proof (cases found)
        case True
        with False Some x s show ?thesis by (auto simp del: dfs.simps)
      next
        case nf: False
        from 4(2) [OF False Some x [symmetric] nf] False Some x s nf show ?thesis
          by (auto simp del: dfs.simps)
      qed
    qed
  qed
qed

lemma dfs_fuel_mono:
  "dfs fuel g node path st = Some r \<Longrightarrow> fuel \<le> fuel' \<Longrightarrow> dfs fuel' g node path st = Some r"
proof (induction fuel' )
  case 0
  then show ?case by simp
next
  case (Suc fuel')
  show ?case
  proof (cases "fuel = Suc fuel'")
    case True
    with Suc.prems show ?thesis by simp
  next
    case False
    with Suc have "dfs fuel' g node path st = Some r" by simp
    with dfs_fuel_Suc(1) show ?thesis by blast
  qed
qed

lemma dfs_roots_fuel_mono:
  "dfs_roots fuel g roots st = Some st' \<Longrightarrow> fuel \<le> fuel' \<Longrightarrow> dfs_roots fuel' g roots st = Some st'"
proof (induction roots arbitrary: st)
  case Nil
  then show ?case by simp
next
  case (Cons node rest)
  show ?case
  proof (cases "visited st node")
    case True
    with Cons show ?thesis by simp
  next
    case False
    with Cons.prems(1) obtain b st1 where 1: "dfs fuel g node [] st = Some (b, st1)"
      "dfs_roots fuel g rest st1 = Some st'"
      by (auto split: option.splits)
    from dfs_fuel_mono [OF 1(1) Cons.prems(2)] Cons.IH [OF 1(2) Cons.prems(2)] False
    show ?thesis by simp
  qed
qed

lemma findCyclesInGraph_fuel_mono:
  "findCyclesInGraph fuel g names = Some cs \<Longrightarrow> fuel \<le> fuel' \<Longrightarrow>
   findCyclesInGraph fuel' g names = Some cs"
  by (auto simp: findCyclesInGraph_def split: option.splits dest: dfs_roots_fuel_mono)

lemma FindMinimalCycles_fuel_mono:
  "FindMinimalCycles fuel tc = Some r \<Longrightarrow> fuel \<le> fuel' \<Longrightarrow> FindMinimalCycles fuel' tc = Some r"
  by (auto simp: FindMinimalCycles_def Let_def split: option.splits dest: findCyclesInGraph_fuel_mono)

lemma FindMinimalCycles_total:
  assumes "length (Nodes tc) \<le> fuel"
  shows "\<exists>cs. FindMinimalCycles fuel tc = Some (cs, tc\<lparr>Cycles := cs\<rparr>) \<and>
     sorted (map length cs) \<and> (\<forall>c\<in>set cs. 2 \<le> length c)"
proof -
  from findCyclesInGraph_total [OF assms] obtain cs where
    "findCyclesInGraph fuel (buildHypotheticalGraph (Nodes tc) (map FullName (Nodes tc)))
            (map FullName (Nodes tc)) = Some cs" "\<forall>c\<in>set cs. 2 \<le> length c"
    by blast
  then show ?thesis
    by (simp add: FindMinimalCycles_def Let_def sorted_sort_key)
qed

text \<open>The search only visits names that are not on its path, so the path and every
  cycle cut from it have pairwise distinct names.\<close>

lemma dfs_cycles_distinct:
  "distinct path \<longrightarrow> (\<forall>x\<in>set path. visited st x) \<longrightarrow> \<not> visited st node \<longrightarrow>
     (\<forall>c\<in>set (cycles st). distinct c) \<longrightarrow>
     (\<forall>b st'. dfs fuel g node path st = Some (b, st') \<longrightarrow>
        (\<forall>x. visited st x \<longrightarrow> visited st' x) \<and> (\<forall>c\<in>set (cycles st'). distinct c))"
  "distinct path2 \<longrightarrow> (\<forall>x\<in>set path2. visited st2 x) \<longrightarrow>
     (\<forall>c\<in>set (cycles st2). distinct c) \<longrightarrow>
     (\<forall>b st'. dfs_neighbors fuel2 g2 node2 path2 nbrs st2 = Some (b, st') \<longrightarrow>
        (\<forall>x. visited st2 x \<longrightarrow> visited st' x) \<and> (\<forall>c\<in>set (cycles st'). distinct c))"
proof (induction fuel g node path st and fuel2 g2 node2 path2 nbrs st2
    rule: dfs_dfs_neighbors.induct)
  case (1 g node path st)
  show ?case by simp
next
  case (2 fuel g node path st)
  let ?st1 = "st\<lparr>visited := (visited st)(node := True),
             recStack := (recStack st)(node := True)\<rparr>"
  show ?case
  proof (intro impI allI)
    fix b st'
    assume d: "distinct path" and v: "\<forall>x\<in>set path. visited st x" and nv: "\<not> visited st node"
      and c: "\<forall>c\<in>set (cycles st). distinct c"
      and r: "dfs (Suc fuel) g node path st = Some (b, st')"
    have "node \<notin> set path" using v nv by auto
    then have d1: "distinct (path @ [node])" using d by simp
    have v1: "\<forall>x\<in>set (path @ [node]). visited ?st1 x" using v by simp
    have c1: "\<forall>c\<in>set (cycles ?st1). distinct c" using c by simp
    from r have "dfs_neighbors fuel g node (path @ [node]) (graph_get g node) ?st1 = Some (b, st')"
      by simp
    with 2 d1 v1 c1
    have "(\<forall>x. visited ?st1 x \<longrightarrow> visited st' x) \<and> (\<forall>c\<in>set (cycles st'). distinct c)"
      by blast
    then show "(\<forall>x. visited st x \<longrightarrow> visited st' x) \<and> (\<forall>c\<in>set (cycles st'). distinct c)"
      by simp
  qed
next
  case (3 fuel g node path st)
  show ?case by simp
next
  case (4 fuel g node path neighbor rest st)
  show ?case
  proof (intro impI allI)
    fix b st'
    assume d: "distinct path" and v: "\<forall>x\<in>set path. visited st x"
      and c: "\<forall>c\<in>set (cycles st). distinct c"
      and r: "dfs_neighbors fuel g node path (neighbor # rest) st = Some (b, st')"
    show "(\<forall>x. visited st x \<longrightarrow> visited st' x) \<and> (\<forall>c\<in>set (cycles st'). distinct c)"
    proof (cases "visited st neighbor")
      case False
      from r False obtain found st1 where 1: "dfs fuel g neighbor path st = Some (found, st1)"
        by (auto split: option.splits)
      with 4(1) [OF False] d v c False
      have m1: "\<forall>x. visited st x \<longrightarrow> visited st1 x" and c1: "\<forall>c\<in>set (cycles st1). distinct c"
        by blast+
      show ?thesis
      proof (cases found)
        case True
        with r False 1 have "st' = st1" by simp
        with m1 c1 show ?thesis by simp
      next
        case nf: False
        with r False 1 have r2: "dfs_neighbors fuel g node path rest st1 = Some (b, st')" by simp
        have v1: "\<forall>x\<in>set path. visited st1 x" using v m1 by blast
        from 4(2) [OF False 1 refl nf] d v1 c1 r2
        have "(\<forall>x. visited st1 x \<longrightarrow> visited st' x) \<and> (\<forall>c\<in>set (cycles st'). distinct c)"
          by blast
        with m1 show ?thesis by blast
      qed
    next
      case vis: True
      show ?thesis
      proof (cases "recStack st neighbor")
        case True
        with r vis d c show ?thesis by (auto split: option.splits)
      next
        case False
        with r vis have "dfs_neighbors fuel g node path rest st = Some (b, st')" by simp
        with 4(3) vis False d v c show ?thesis by blast
      qed
    qed
  qed
qed

lemma dfs_roots_cycles_distinct:
  "(\<forall>c\<in>set (cycles st). distinct c) \<Longrightarrow> dfs_roots fuel g roots st = Some st' \<Longrightarrow>
   \<forall>c\<in>set (cycles st'). distinct c"
proof (induction roots arbitrary: st)
  case Nil
  then show ?case by simp
next
  case (Cons node rest)
  show ?case
  proof (cases "visited st node")
    case True
    with Cons show ?thesis by simp
  next
    case False
    with Cons.prems(2) obtain b st1 where 1: "dfs fuel g node [] st = Some (b, st1)"
      "dfs_roots fuel g rest st1 = Some st'"
      by (auto split: option.splits)
    from dfs_cycles_distinct(1) [of "[]" st node fuel g] False Cons.prems(1) 1(1)
    have "\<forall>c\<in>set (cycles st1). distinct c" by simp
    from Cons.IH [OF this 1(2)] show ?thesis .
  qed
qed

lemma findCyclesInGraph_distinct:
  assumes "distinct nodeNames" "findCyclesInGraph fuel g nodeNames = Some cs"
  shows "\<forall>c\<in>set cs. distinct c"
proof -
  from assms(2) obtain st where st: "dfs_roots fuel g nodeNames
      \<lparr>visited = (\<lambda>_. False), recStack = (\<lambda>_. False), cycles = []\<rparr> = Some st"
    and cs: "cs = deduplicateCycles
                  (if length (cycles st) = 0 then cycles st @ [nodeNames] else cycles st)"
    by (auto simp: findCyclesInGraph_def split: option.splits)
  have "\<forall>c\<in>set (cycles st). distinct c"
    by (rule dfs_roots_cycles_distinct [OF _ st]) simp
  with assms(1) have "\<forall>c\<in>set (if length (cycles st) = 0 then cycles st @ [nodeNames] else cycles st).
      distinct c"
    by auto
  then show ?thesis unfolding cs using deduplicateCycles_length by blast
qed

lemma FindMinimalCycles_distinct:
  assumes "distinct (map FullName (Nodes tc))" "FindMinimalCycles fuel tc = Some (cs, tc')"
  shows "\<forall>c\<in>set cs. distinct c"
proof -
  from assms(2) obtain cs0 where
    "findCyclesInGraph fuel (buildHypotheticalGraph (Nodes tc) (map FullName (Nodes tc)))
       (map FullName (Nodes tc)) = Some cs0" "cs = sort_key length cs0"
    by (auto simp: FindMinimalCycles_def Let_def split: option.splits)
  with findCyclesInGraph_distinct [OF assms(1)] show ?thesis by simp
qed

text \<open>On the graph of \<open>buildHypotheticalGraph\<close> every name has a first neighbour, so
  the first root yields a cycle and the node names are never taken as a cycle unless
  there is no node: every list handed to \<open>deduplicateCycles\<close> has pairwise distinct
  names.\<close>

lemma fallback_fold_nonempty:
  "(\<forall>i\<in>set is. graph_get (foldl (\<lambda>g i. assoc_set g (names ! i) [f i]) g is) (names ! i) \<noteq> []) \<and>
   (\<forall>k. graph_get g k \<noteq> [] \<longrightarrow>
        graph_get (foldl (\<lambda>g i. assoc_set g (names ! i) [f i]) g is) k \<noteq> [])"
proof (induction "is" arbitrary: g)
  case Nil
  show ?case by simp
next
  case (Cons j js)
  let ?g1 = "assoc_set g (names ! j) [f j]"
  note IH = Cons [of ?g1]
  have "graph_get ?g1 (names ! j) \<noteq> []" by (simp add: graph_get_assoc_set)
  with IH have j: "graph_get (foldl (\<lambda>g i. assoc_set g (names ! i) [f i]) ?g1 js) (names ! j) \<noteq> []"
    by blast
  have keep: "graph_get g k \<noteq> [] \<Longrightarrow> graph_get ?g1 k \<noteq> []" for k
    by (simp add: graph_get_assoc_set)
  show ?case using IH j keep by auto
qed

lemma buildSequentialFallback_nonempty:
  assumes "k \<in> set nodeNames"
  shows "graph_get (buildSequentialFallback nodeNames) k \<noteq> []"
proof -
  from assms obtain i where "i < length nodeNames" "k = nodeNames ! i"
    by (auto simp: in_set_conv_nth)
  then have "i \<in> set [0..<length nodeNames]" by simp
  with fallback_fold_nonempty [of "[0..<length nodeNames]" nodeNames
      "\<lambda>i. nodeNames ! ((i + 1) mod length nodeNames)" "[]"] \<open>k = nodeNames ! i\<close>
  show ?thesis unfolding buildSequentialFallback_def by blast
qed

lemma buildHypotheticalGraph_has_neighbor:
  assumes k: "k \<in> FullName ` set nodes"
  shows "graph_get (buildHypotheticalGraph nodes (map FullName nodes)) k \<noteq> [] \<and>
         hd (graph_get (buildHypotheticalGraph nodes (map FullName nodes)) k) \<in> FullName ` set nodes"
proof -
  let ?g = "buildHypotheticalGraph nodes (map FullName nodes)"
  have ne: "graph_get ?g k \<noteq> []"
  proof (cases "allNodesHaveConnections (heuristic_adjacency nodes)")
    case True
    then have "?g = heuristic_adjacency nodes"
      by (simp add: buildHypotheticalGraph_def heuristic_adjacency_def)
    with allNodesHaveConnections_get [OF True] k show ?thesis
      by (simp add: heuristic_graph_keys)
  next
    case False
    then have "?g = buildSequentialFallback (map FullName nodes)"
      by (simp add: buildHypotheticalGraph_def heuristic_adjacency_def)
    with buildSequentialFallback_nonempty [of k "map FullName nodes"] k show ?thesis by simp
  qed
  then have "hd (graph_get ?g k) \<in> set (graph_get ?g k)" by simp
  with buildHypotheticalGraph_closed [of nodes k] ne show ?thesis by blast
qed

lemma dfs_first_chase_any:
  fixes U :: "string set"
  assumes fin: "finite U"
    and nbr: "\<And>k. k \<in> U \<Longrightarrow> graph_get g k \<noteq> [] \<and> hd (graph_get g k) \<in> U"
  shows "node \<in> U \<Longrightarrow> \<not> visited st node \<Longrightarrow> (\<forall>x. visited st x = (x \<in> set path)) \<Longrightarrow>
     (\<forall>x. recStack st x = (x \<in> set path)) \<Longrightarrow> card (U - visited_set st) \<le> fuel \<Longrightarrow>
     \<exists>c st'. dfs fuel g node path st = Some (True, st') \<and> cycles st' = cycles st @ [c] \<and>
        visited_set st \<subseteq> visited_set st'"
proof (induction fuel arbitrary: node path st)
  case 0
  then have "node \<in> U - visited_set st" "U - visited_set st = {}"
    using fin by (simp_all add: visited_set_def)
  then show ?case by simp
next
  case (Suc fuel)
  define st1 where "st1 = st\<lparr>visited := (visited st)(node := True),
             recStack := (recStack st)(node := True)\<rparr>"
  define path1 where "path1 = path @ [node]"
  from nbr [OF Suc.prems(1)] obtain nb rest where
    g: "graph_get g node = nb # rest" and nbU: "nb \<in> U"
    by (cases "graph_get g node") auto
  have c1: "card (U - visited_set st1) \<le> fuel"
    unfolding st1_def by (rule card_unvisited_mark [OF fin Suc.prems(1,2,5)])
  have v1: "\<forall>x. visited st1 x = (x \<in> set path1)"
    using Suc.prems(3) by (auto simp: st1_def path1_def)
  have r1: "\<forall>x. recStack st1 x = (x \<in> set path1)"
    using Suc.prems(4) by (auto simp: st1_def path1_def)
  have sub1: "visited_set st \<subseteq> visited_set st1" by (auto simp: visited_set_def st1_def)
  have cy1: "cycles st1 = cycles st" by (simp add: st1_def)
  have unfold: "dfs (Suc fuel) g node path st = dfs_neighbors fuel g node path1 (nb # rest) st1"
    using g by (simp add: st1_def path1_def)
  show ?case
  proof (cases "visited st1 nb")
    case False
    from Suc.IH [OF nbU False v1 r1 c1] obtain c st' where
      r: "dfs fuel g nb path1 st1 = Some (True, st')" "cycles st' = cycles st1 @ [c]"
        "visited_set st1 \<subseteq> visited_set st'"
      by blast
    have "dfs_neighbors fuel g node path1 (nb # rest) st1 = Some (True, st')"
      using False r(1) by (simp del: dfs.simps)
    with unfold have "dfs (Suc fuel) g node path st = Some (True, st')" by simp
    moreover have "cycles st' = cycles st @ [c]" using r(2) cy1 by simp
    moreover have "visited_set st \<subseteq> visited_set st'" using sub1 r(3) by blast
    ultimately show ?thesis by blast
  next
    case True
    then have inp: "nb \<in> set path1" using v1 by blast
    then obtain i where i: "cycleStart path1 nb = Some i"
      using cycleStart_in by blast
    have rs: "recStack st1 nb" using r1 inp by blast
    define st' where "st' = st1\<lparr>cycles := cycles st1 @ [drop i path1]\<rparr>"
    have "dfs_neighbors fuel g node path1 (nb # rest) st1 = Some (True, st')"
      using True rs i by (simp del: dfs.simps add: st'_def)
    with unfold have "dfs (Suc fuel) g node path st = Some (True, st')" by simp
    moreover have "cycles st' = cycles st @ [drop i path1]" by (simp add: st'_def cy1)
    moreover have "visited_set st \<subseteq> visited_set st'"
      using sub1 by (auto simp: visited_set_def st'_def)
    ultimately show ?thesis by blast
  qed
qed

lemma findCyclesInGraph_candidates:
  assumes f: "length nodes \<le> fuel"
  shows "\<exists>cands. findCyclesInGraph fuel (buildHypotheticalGraph nodes (map FullName nodes))
            (map FullName nodes) = Some (deduplicateCycles cands) \<and>
          (\<forall>c\<in>set cands. distinct c)"
proof (cases nodes)
  case Nil
  have "findCyclesInGraph fuel (buildHypotheticalGraph [] (map FullName [])) (map FullName []) =
      Some (deduplicateCycles [[]])"
    by (simp add: findCyclesInGraph_def)
  with Nil show ?thesis by (intro exI [of _ "[[]]"]) simp
next
  case (Cons n0 rest)
  let ?g = "buildHypotheticalGraph nodes (map FullName nodes)"
  let ?U = "FullName ` set nodes"
  let ?st0 = "\<lparr>visited = (\<lambda>_. False), recStack = (\<lambda>_. False), cycles = []\<rparr>"
  have fin: "finite ?U" by simp
  have cl: "\<forall>k. set (graph_get ?g k) \<subseteq> ?U" using buildHypotheticalGraph_closed by blast
  have root: "FullName n0 \<in> ?U" by (simp add: Cons)
  have c0: "card (?U - visited_set ?st0) \<le> fuel" by (rule card_names_fuel [OF f])
  have "\<exists>c st'. dfs fuel ?g (FullName n0) [] ?st0 = Some (True, st') \<and>
      cycles st' = cycles ?st0 @ [c] \<and> visited_set ?st0 \<subseteq> visited_set st'"
    by (rule dfs_first_chase_any [OF fin buildHypotheticalGraph_has_neighbor root _ _ _ c0])
      simp_all
  then obtain c st1 where 1: "dfs fuel ?g (FullName n0) [] ?st0 = Some (True, st1)"
    "cycles st1 = [c]" "visited_set ?st0 \<subseteq> visited_set st1"
    by auto
  have c1: "card (?U - visited_set st1) \<le> fuel"
    by (rule card_unvisited_mono [OF fin 1(3) c0])
  have "set (map FullName rest) \<subseteq> ?U" by (auto simp: Cons)
  from dfs_roots_total [OF fin cl this c1] obtain st2 cs where
    2: "dfs_roots fuel ?g (map FullName rest) st1 = Some st2" "cycles st2 = cycles st1 @ cs"
    by blast
  have r: "dfs_roots fuel ?g (map FullName nodes) ?st0 = Some st2"
    using 1(1) 2(1) by (simp add: Cons)
  have ne: "cycles st2 = c # cs" using 1(2) 2(2) by simp
  have "findCyclesInGraph fuel ?g (map FullName nodes) = Some (deduplicateCycles (cycles st2))"
    using r ne by (simp add: findCyclesInGraph_def)
  moreover have "\<forall>c\<in>set (cycles st2). distinct c"
    by (rule dfs_roots_cycles_distinct [OF _ r]) simp
  ultimately show ?thesis by blast
qed

text \<open>A node set of one node, whatever the node: the graph is the self-loop of the
  fallback, the one cycle found has one element, and deduplication drops it.\<close>

lemma FindMinimalCycles_single_node:
  assumes "Nodes tc = [n]" "0 < fuel"
  shows "FindMinimalCycles fuel tc = Some ([], tc\<lparr>Cycles := []\<rparr>)"
proof -
  obtain f where f: "fuel = Suc f" using assms(2) by (cases fuel) auto
  have h: "heuristic_graph [n] [FullName n] = [(FullName n, [])]"
    by (simp add: heuristic_graph_def edge_row_def edge_step_def)
  have g: "buildHypotheticalGraph [n] [FullName n] = [(FullName n, [FullName n])]"
    by (simp add: buildHypotheticalGraph_def h allNodesHaveConnections_def
        buildSequentialFallback_def)
  show ?thesis
    by (simp add: FindMinimalCycles_def assms(1) g f findCyclesInGraph_def graph_get_def
        deduplicateCycles_def)
qed

section \<open>Lemmas on normalisation\<close>

lemma minIndex_fold_inv:
  fixes c :: "string list"
  assumes "k \<le> length c" "c \<noteq> []"
  shows "let m = foldl (\<lambda>minIndex i. if c ! i < c ! minIndex then i else minIndex) 0 [0..<k]
         in m < length c \<and> (m < k \<or> m = 0) \<and> (\<forall>j<k. c ! m \<le> c ! j) \<and> (\<forall>j<m. c ! m < c ! j)"
  using assms(1)
proof (induction k)
  case 0
  then show ?case using assms(2) by simp
next
  case (Suc k)
  then have IH: "let m = foldl (\<lambda>minIndex i. if c ! i < c ! minIndex then i else minIndex) 0 [0..<k]
         in m < length c \<and> (m < k \<or> m = 0) \<and> (\<forall>j<k. c ! m \<le> c ! j) \<and> (\<forall>j<m. c ! m < c ! j)"
    by simp
  define m where "m = foldl (\<lambda>minIndex i. if c ! i < c ! minIndex then i else minIndex) 0 [0..<k]"
  from IH have m: "m < length c" "m < k \<or> m = 0" "\<forall>j<k. c ! m \<le> c ! j" "\<forall>j<m. c ! m < c ! j"
    by (simp_all add: m_def Let_def)
  have step: "foldl (\<lambda>minIndex i. if c ! i < c ! minIndex then i else minIndex) 0 [0..<Suc k]
      = (if c ! k < c ! m then k else m)"
    by (simp add: m_def)
  show ?case
  proof (cases "c ! k < c ! m")
    case True
    have "\<forall>j<Suc k. c ! k \<le> c ! j"
    proof (intro allI impI)
      fix j assume "j < Suc k"
      then consider "j < k" | "j = k" by linarith
      then show "c ! k \<le> c ! j"
      proof cases
        case 1
        with m(3) have "c ! m \<le> c ! j" by simp
        with True have "c ! k < c ! j" by (rule less_le_trans)
        then show ?thesis by (rule less_imp_le)
      qed simp
    qed
    moreover have "\<forall>j<k. c ! k < c ! j"
    proof (intro allI impI)
      fix j assume "j < k"
      with m(3) have "c ! m \<le> c ! j" by simp
      with True show "c ! k < c ! j" by (rule less_le_trans)
    qed
    ultimately show ?thesis using True Suc.prems unfolding step Let_def by simp
  next
    case False
    have "\<forall>j<Suc k. c ! m \<le> c ! j"
    proof (intro allI impI)
      fix j assume "j < Suc k"
      then consider "j < k" | "j = k" by linarith
      then show "c ! m \<le> c ! j"
      proof cases
        case 1
        with m(3) show ?thesis by simp
      next
        case 2
        with False show ?thesis by simp
      qed
    qed
    then show ?thesis using False m unfolding step Let_def by auto
  qed
qed

lemma minIndex_of_props:
  assumes "c \<noteq> []"
  shows minIndex_of_less: "minIndex_of c < length c"
    and minIndex_of_least: "\<forall>j<length c. c ! minIndex_of c \<le> c ! j"
    and minIndex_of_first: "\<forall>j<minIndex_of c. c ! minIndex_of c < c ! j"
  using minIndex_fold_inv [OF le_refl assms] by (simp_all add: minIndex_of_def Let_def)

lemma minIndex_of_Min:
  assumes "c \<noteq> []"
  shows "c ! minIndex_of c = Min (set c)"
proof (rule antisym)
  have "Min (set c) \<in> set c" using assms by simp
  then obtain j where "j < length c" "c ! j = Min (set c)" by (auto simp: in_set_conv_nth)
  with minIndex_of_least [OF assms] show "c ! minIndex_of c \<le> Min (set c)" by auto
next
  have "c ! minIndex_of c \<in> set c" using minIndex_of_less [OF assms] by simp
  then show "Min (set c) \<le> c ! minIndex_of c" by simp
qed

lemma normalizeCycle_rotate: "normalizeCycle c = rotate (minIndex_of c) c"
proof (cases "c = []")
  case True
  then show ?thesis by (simp add: normalizeCycle_def)
next
  case False
  show ?thesis
    by (rule nth_equalityI) (simp_all add: normalizeCycle_def nth_rotate False)
qed

lemma hd_normalizeCycle:
  assumes "c \<noteq> []"
  shows "hd (normalizeCycle c) = Min (set c)"
proof -
  have "hd (rotate (minIndex_of c) c) = c ! minIndex_of c"
    using minIndex_of_less [OF assms] by (simp add: hd_rotate_conv_nth assms)
  then show ?thesis by (simp add: normalizeCycle_rotate minIndex_of_Min [OF assms])
qed

lemma count_list_one_index:
  "count_list c m = 1 \<Longrightarrow> i < length c \<Longrightarrow> j < length c \<Longrightarrow> c ! i = m \<Longrightarrow> c ! j = m \<Longrightarrow> i = j"
proof (induction c arbitrary: i j)
  case Nil
  then show ?case by simp
next
  case (Cons x xs)
  have zero: "count_list xs m = 0 \<Longrightarrow> k < length xs \<Longrightarrow> xs ! k \<noteq> m" for k
    by (metis count_list_0_iff nth_mem)
  show ?case
  proof (cases "x = m")
    case True
    with Cons.prems(1) have z: "count_list xs m = 0" by simp
    show ?thesis
    proof (cases i; cases j)
      fix i' j' assume "i = Suc i'" "j = Suc j'"
      with Cons.prems zero [OF z, of i'] show ?thesis by simp
    next
      fix j' assume "i = 0" "j = Suc j'"
      with Cons.prems zero [OF z, of j'] show ?thesis by simp
    next
      fix i' assume "i = Suc i'" "j = 0"
      with Cons.prems zero [OF z, of i'] show ?thesis by simp
    qed simp
  next
    case False
    with Cons.prems(1) have c: "count_list xs m = 1" by simp
    from False Cons.prems obtain i' j' where ij: "i = Suc i'" "j = Suc j'"
      by (cases i; cases j) auto
    with Cons.prems Cons.IH [OF c, of i' j'] show ?thesis by simp
  qed
qed

lemma count_list_rotate: "count_list (rotate n c) m = count_list c m"
proof -
  have "count_list (rotate n c) m =
      count_list (drop (n mod length c) c @ take (n mod length c) c) m"
    by (simp only: rotate_drop_take)
  also have "\<dots> = count_list (take (n mod length c) c @ drop (n mod length c) c) m"
    by (simp only: count_list_append add.commute)
  also have "\<dots> = count_list c m"
    by (simp only: append_take_drop_id)
  finally show ?thesis .
qed

lemma distinct_count_list_one: "distinct c \<Longrightarrow> x \<in> set c \<Longrightarrow> count_list c x = 1"
  by (induction c) auto

lemma set_rotate_Min: "Min (set (rotate n c)) = Min (set c)"
  by simp

lemma distinct_unique_min: "c \<noteq> [] \<Longrightarrow> distinct c \<Longrightarrow> unique_min c"
  by (simp add: unique_min_def distinct_count_list_one)

lemma unique_min_rotate: "unique_min c \<Longrightarrow> unique_min (rotate n c)"
  by (simp add: unique_min_def count_list_rotate)

lemma normalizeCycle_unique_rotation:
  assumes u: "unique_min c" and k: "k < length c" and h: "c ! k = Min (set c)"
  shows "normalizeCycle c = rotate k c"
proof -
  from u have ne: "c \<noteq> []" by (simp add: unique_min_def)
  have "minIndex_of c = k"
    using u minIndex_of_less [OF ne] k minIndex_of_Min [OF ne] h
    by (auto simp: unique_min_def intro: count_list_one_index)
  then show ?thesis by (simp add: normalizeCycle_rotate)
qed

lemma normalizeCycle_rotate_invariant:
  assumes u: "unique_min c"
  shows "normalizeCycle (rotate n c) = normalizeCycle c"
proof -
  from u have ne: "c \<noteq> []" by (simp add: unique_min_def)
  let ?r = "rotate n c"
  let ?m = "minIndex_of ?r"
  have ner: "?r \<noteq> []" using ne by simp
  have ml: "?m < length c" using minIndex_of_less [OF ner] by simp
  let ?k = "(n + ?m) mod length c"
  have kl: "?k < length c" using ne by simp
  have "c ! ?k = ?r ! ?m" using ml by (simp add: nth_rotate add.commute)
  also have "\<dots> = Min (set c)" using minIndex_of_Min [OF ner] by simp
  finally have "normalizeCycle c = rotate ?k c"
    by (rule normalizeCycle_unique_rotation [OF u kl])
  also have "\<dots> = rotate (?m + n) c" by (simp add: rotate_conv_mod [symmetric] add.commute)
  also have "\<dots> = rotate ?m ?r" by (simp add: rotate_rotate)
  also have "\<dots> = normalizeCycle ?r" by (simp add: normalizeCycle_rotate)
  finally show ?thesis by simp
qed



section \<open>Properties of the parser\<close>

lemma has_marker_E: "has_marker t \<Longrightarrow> CHR ''E'' \<in> set t"
  by (auto simp: has_marker_def)

text \<open>
  Claim C2. \<open>ParseError\<close> returns an error, and so no node, exactly when the text has no
  cycle marker or none of the segments after the marker parses. Without a marker the
  error is the one about the cycle not being extracted. When at least one segment
  parses the call succeeds, and its nodes are the nodes of the segments that parse, in
  the order of the segments: a segment that fails is skipped.
\<close>

theorem ParseError_fatal_iff:
  "((\<exists>e. ParseError t = Inl e) \<longleftrightarrow> (\<not> has_marker t \<or> survivors_of t = [])) \<and>
   (\<not> has_marker t \<longrightarrow> ParseError t = Inl CycleNotExtracted) \<and>
   (has_marker t \<and> survivors_of t = [] \<longrightarrow>
      ParseError t = Inl CycleNotExtracted \<or> ParseError t = Inl NoValidResources) \<and>
   (survivors_of t \<noteq> [] \<longrightarrow>
      ParseError t = Inr \<lparr>Nodes = survivors_of t, RawError = t, Cycles = []\<rparr>)"
proof (cases "cycleRegex_find t")
  case None
  then show ?thesis by (simp add: ParseError_def survivors_of_def)
next
  case (Some cycleText)
  then have "has_marker t" using no_marker_no_match [of t] by auto
  with Some show ?thesis
    by (auto simp: ParseError_def survivors_of_def parse_segments_survivors Let_def)
qed

theorem ParseError_fatal_iff_witness:
  "\<not> has_marker ''This is not a cycle error'' \<and>
   ParseError ''This is not a cycle error'' = Inl CycleNotExtracted \<and>
   has_marker ''Error: Cycle: ???'' \<and>
   survivors_of ''Error: Cycle: ???'' = [] \<and>
   ParseError ''Error: Cycle: ???'' = Inl NoValidResources \<and>
   survivors_of ''Error: Cycle: aws_instance.web, ???, aws_eip.ip (destroy)'' =
     [\<lparr>ResourceType = ''aws_instance'', ResourceName = ''web'', ModulePath = [],
       InstanceKey = [], Action = ActionNormal, Annotations = [],
       RawString = ''aws_instance.web''\<rparr>,
      \<lparr>ResourceType = ''aws_eip'', ResourceName = ''ip'', ModulePath = [],
       InstanceKey = [], Action = ActionDestroy, Annotations = [],
       RawString = ''aws_eip.ip (destroy)''\<rparr>] \<and>
   ParseError ''Error: Cycle: aws_instance.web, ???, aws_eip.ip (destroy)'' =
     Inr \<lparr>Nodes =
            [\<lparr>ResourceType = ''aws_instance'', ResourceName = ''web'', ModulePath = [],
              InstanceKey = [], Action = ActionNormal, Annotations = [],
              RawString = ''aws_instance.web''\<rparr>,
             \<lparr>ResourceType = ''aws_eip'', ResourceName = ''ip'', ModulePath = [],
              InstanceKey = [], Action = ActionDestroy, Annotations = [],
              RawString = ''aws_eip.ip (destroy)''\<rparr>],
          RawError = ''Error: Cycle: aws_instance.web, ???, aws_eip.ip (destroy)'',
          Cycles = []\<rparr>"
proof -
  have nm: "\<not> has_marker ''This is not a cycle error''"
    using has_marker_E [of "''This is not a cycle error''"] by auto
  have m: "has_marker ''Error: Cycle: ???''"
    unfolding has_marker_def
    by (rule exI [of _ "[]"], rule exI [of _ "'' ''"], rule exI [of _ "'' ???''"])
      (simp add: is_space_re_def)
  have s0: "survivors_of ''Error: Cycle: ???'' = []"
    by code_simp
  have e0: "ParseError ''Error: Cycle: ???'' = Inl NoValidResources"
    by code_simp
  have s1: "survivors_of ''Error: Cycle: aws_instance.web, ???, aws_eip.ip (destroy)'' =
     [\<lparr>ResourceType = ''aws_instance'', ResourceName = ''web'', ModulePath = [],
       InstanceKey = [], Action = ActionNormal, Annotations = [],
       RawString = ''aws_instance.web''\<rparr>,
      \<lparr>ResourceType = ''aws_eip'', ResourceName = ''ip'', ModulePath = [],
       InstanceKey = [], Action = ActionDestroy, Annotations = [],
       RawString = ''aws_eip.ip (destroy)''\<rparr>]"
    by code_simp
  from nm m s0 e0 s1
    ParseError_fatal_iff [of "''This is not a cycle error''"]
    ParseError_fatal_iff [of "''Error: Cycle: aws_instance.web, ???, aws_eip.ip (destroy)''"]
  show ?thesis by simp
qed

text \<open>
  Claim C4. For every segment, with the remainder being what the three stripping steps
  leave of it: the segment parses into a node exactly when the remainder holds a token
  \<open><type>.<name>\<close>, which is what the search with \<open>resourceRegex\<close> looks for; otherwise
  parsing the segment fails, with the remainder in the error. The type and the name of
  the node are those of the leftmost such token.
\<close>

theorem parseResource_iff_type_name:
  "((\<exists>node. parseResource seg = Inr node) \<longleftrightarrow> contains_type_name (snd (stripped seg))) \<and>
   (\<not> contains_type_name (snd (stripped seg)) \<longrightarrow>
      parseResource seg = Inl (ResourceNotParsed (snd (stripped seg)))) \<and>
   (\<forall>node. parseResource seg = Inr node \<longrightarrow>
      resourceRegex_find (snd (stripped seg)) = Some (ResourceType node, ResourceName node))"
proof -
  obtain node0 cleanStr where s: "stripped seg = (node0, cleanStr)" by (cases "stripped seg")
  show ?thesis
  proof (cases "resourceRegex_find cleanStr")
    case None
    then have "\<not> contains_type_name cleanStr" using resourceRegex_find_iff [of cleanStr] by simp
    with None s show ?thesis by (simp add: parseResource_def)
  next
    case (Some m)
    then have "contains_type_name cleanStr" using resourceRegex_find_iff [of cleanStr] by simp
    with Some s show ?thesis by (cases m) (auto simp: parseResource_def)
  qed
qed

theorem parseResource_iff_type_name_witness:
  "snd (stripped ''module.vpc.web[0] (destroy)'') = ''web'' \<and>
   \<not> contains_type_name (snd (stripped ''module.vpc.web[0] (destroy)'')) \<and>
   parseResource ''module.vpc.web[0] (destroy)'' = Inl (ResourceNotParsed ''web'') \<and>
   snd (stripped ''module.vpc.aws_instance.web[0] (destroy)'') = ''aws_instance.web'' \<and>
   contains_type_name (snd (stripped ''module.vpc.aws_instance.web[0] (destroy)'')) \<and>
   parseResource ''module.vpc.aws_instance.web[0] (destroy)'' =
     Inr \<lparr>ResourceType = ''aws_instance'', ResourceName = ''web'',
          ModulePath = [''module'', ''vpc''], InstanceKey = ''0'', Action = ActionDestroy,
          Annotations = [], RawString = ''module.vpc.aws_instance.web[0] (destroy)''\<rparr>"
proof -
  have 1: "snd (stripped ''module.vpc.web[0] (destroy)'') = ''web''" by code_simp
  have 2: "parseResource ''module.vpc.web[0] (destroy)'' = Inl (ResourceNotParsed ''web'')"
    by code_simp
  have 3: "snd (stripped ''module.vpc.aws_instance.web[0] (destroy)'') = ''aws_instance.web''"
    by code_simp
  have 4: "parseResource ''module.vpc.aws_instance.web[0] (destroy)'' =
     Inr \<lparr>ResourceType = ''aws_instance'', ResourceName = ''web'',
          ModulePath = [''module'', ''vpc''], InstanceKey = ''0'', Action = ActionDestroy,
          Annotations = [], RawString = ''module.vpc.aws_instance.web[0] (destroy)''\<rparr>"
    by code_simp
  from parseResource_iff_type_name [of "''module.vpc.web[0] (destroy)''"] 2
  have 5: "\<not> contains_type_name (snd (stripped ''module.vpc.web[0] (destroy)''))" by auto
  from parseResource_iff_type_name [of "''module.vpc.aws_instance.web[0] (destroy)''"] 4
  have 6: "contains_type_name (snd (stripped ''module.vpc.aws_instance.web[0] (destroy)''))"
    by auto
  from 1 2 3 4 5 6 show ?thesis by simp
qed

lemma Join_Cons: "qs \<noteq> [] \<Longrightarrow> Join (p # qs) sep = p @ sep @ Join qs sep"
  by (cases qs) simp_all

lemma Join_snoc: "Join (ps @ [x]) sep = concat (map (\<lambda>p. p @ sep) ps) @ x"
  by (induction ps) (simp_all add: Join_Cons)

lemma FullName_full_identity: "FullName n = full_identity n"
  by (simp add: FullName_def full_identity_def Let_def Join_snoc)

lemma GetNodeByName_loop_first:
  "n \<in> set nodes \<Longrightarrow>
   \<exists>pre m post. nodes = pre @ m # post \<and> GetNodeByName_loop nodes (FullName n) = Some m \<and>
     FullName m = FullName n \<and> (\<forall>p\<in>set pre. FullName p \<noteq> FullName n)"
proof (induction nodes)
  case Nil
  then show ?case by simp
next
  case (Cons a nodes)
  show ?case
  proof (cases "FullName a = FullName n")
    case True
    then have "a # nodes = [] @ a # nodes \<and> GetNodeByName_loop (a # nodes) (FullName n) = Some a \<and>
       FullName a = FullName n \<and> (\<forall>p\<in>set []. FullName p \<noteq> FullName n)"
      by simp
    then show ?thesis by blast
  next
    case False
    with Cons.prems have "n \<in> set nodes" by auto
    from Cons.IH [OF this] obtain pre m post where
      "nodes = pre @ m # post" "GetNodeByName_loop nodes (FullName n) = Some m"
      "FullName m = FullName n" "\<forall>p\<in>set pre. FullName p \<noteq> FullName n"
      by blast
    with False have "a # nodes = (a # pre) @ m # post \<and>
       GetNodeByName_loop (a # nodes) (FullName n) = Some m \<and>
       FullName m = FullName n \<and> (\<forall>p\<in>set (a # pre). FullName p \<noteq> FullName n)"
      by simp
    then show ?thesis by blast
  qed
qed

lemma GetNodeByName_loop_distinct:
  "distinct (map FullName nodes) \<Longrightarrow> n \<in> set nodes \<Longrightarrow>
   GetNodeByName_loop nodes (FullName n) = Some n"
  by (induction nodes) auto

text \<open>
  Claim C5, as amended. The full name is the full identity of the data model. For
  every node of a successfully parsed node set, the lookup of its full name returns the
  first node, in the order of appearance, that has this full name; it is the node
  itself when the full names of the set are pairwise distinct.
\<close>

theorem GetNodeByName_FullName_first:
  assumes "ParseError text = Inr tc" and "n \<in> set (Nodes tc)"
  shows "FullName n = full_identity n \<and>
     (\<exists>pre m post. Nodes tc = pre @ m # post \<and> GetNodeByName tc (FullName n) = Some m \<and>
        FullName m = FullName n \<and> (\<forall>p\<in>set pre. FullName p \<noteq> FullName n)) \<and>
     (distinct (map FullName (Nodes tc)) \<longrightarrow> GetNodeByName tc (FullName n) = Some n)"
proof (intro conjI impI)
  show "FullName n = full_identity n" by (rule FullName_full_identity)
  show "\<exists>pre m post. Nodes tc = pre @ m # post \<and> GetNodeByName tc (FullName n) = Some m \<and>
        FullName m = FullName n \<and> (\<forall>p\<in>set pre. FullName p \<noteq> FullName n)"
    unfolding GetNodeByName_def by (rule GetNodeByName_loop_first [OF assms(2)])
  show "GetNodeByName tc (FullName n) = Some n" if "distinct (map FullName (Nodes tc))"
    unfolding GetNodeByName_def by (rule GetNodeByName_loop_distinct [OF that assms(2)])
qed

theorem GetNodeByName_FullName_first_witness:
  "ParseError ''Error: Cycle: module.vpc.aws_instance.web[0] (destroy), aws_security_group.sg[\"prod\"]''
     = Inr web_and_sg \<and>
   Nodes web_and_sg ! 1 \<in> set (Nodes web_and_sg) \<and>
   distinct (map FullName (Nodes web_and_sg)) \<and>
   FullName (Nodes web_and_sg ! 1) = ''aws_security_group.sg[prod]'' \<and>
   GetNodeByName web_and_sg ''aws_security_group.sg[prod]'' = Some (Nodes web_and_sg ! 1)"
proof -
  have p: "ParseError ''Error: Cycle: module.vpc.aws_instance.web[0] (destroy), aws_security_group.sg[\"prod\"]''
     = Inr web_and_sg"
    by code_simp
  have m: "Nodes web_and_sg ! 1 \<in> set (Nodes web_and_sg)" by (simp add: web_and_sg_def)
  have d: "distinct (map FullName (Nodes web_and_sg))" by code_simp
  have f: "FullName (Nodes web_and_sg ! 1) = ''aws_security_group.sg[prod]''" by code_simp
  from GetNodeByName_FullName_first [OF p m] d
  have "GetNodeByName web_and_sg (FullName (Nodes web_and_sg ! 1)) = Some (Nodes web_and_sg ! 1)"
    by blast
  then have g: "GetNodeByName web_and_sg ''aws_security_group.sg[prod]'' =
      Some (Nodes web_and_sg ! 1)"
    by (simp only: f)
  from p m d f g show ?thesis by (intro conjI)
qed

theorem GetNodeByName_FullName_counterexample:
  "ParseError ''Error: Cycle: aws_instance.web (destroy), aws_instance.web'' = Inr same_name_twice \<and>
   Nodes same_name_twice ! 1 \<in> set (Nodes same_name_twice) \<and>
   GetNodeByName same_name_twice (FullName (Nodes same_name_twice ! 1)) =
     Some (Nodes same_name_twice ! 0) \<and>
   Nodes same_name_twice ! 0 \<noteq> Nodes same_name_twice ! 1 \<and>
   GetNodeByName same_name_twice (FullName (Nodes same_name_twice ! 1)) \<noteq>
     Some (Nodes same_name_twice ! 1)"
proof -
  have p: "ParseError ''Error: Cycle: aws_instance.web (destroy), aws_instance.web'' =
      Inr same_name_twice"
    by code_simp
  have g: "GetNodeByName same_name_twice (FullName (Nodes same_name_twice ! 1)) =
     Some (Nodes same_name_twice ! 0)"
    by code_simp
  show ?thesis unfolding g using p by (simp add: same_name_twice_def)
qed



section \<open>Properties of the heuristic graph\<close>

text \<open>
  Claim C3, as amended. In the heuristic adjacency, for every pair of nodes at
  different positions: if the first has the action \<open>destroy\<close> and the second has not,
  and the two are not both inside modules with module paths of which neither is the
  start of the other, then the edge from the first to the second is there.
\<close>

theorem heuristic_graph_destroy_edge:
  assumes "i < length nodes" "j < length nodes" "i \<noteq> j"
    and "Action (nodes ! i) = ActionDestroy" "Action (nodes ! j) \<noteq> ActionDestroy"
    and "ModulePath (nodes ! i) = [] \<or> ModulePath (nodes ! j) = [] \<or>
         shareModulePath (ModulePath (nodes ! i)) (ModulePath (nodes ! j))"
  shows "FullName (nodes ! j) \<in> set (graph_get (heuristic_adjacency nodes) (FullName (nodes ! i)))"
proof -
  have "likelyDependency (nodes ! i) (nodes ! j)"
    using assms(4,5,6) by (auto simp: likelyDependency_def)
  from heuristic_graph_edge [OF assms(1,2,3) this] show ?thesis .
qed

theorem heuristic_graph_destroy_edge_witness:
  "Action ([destroy_in_module, normal_at_root] ! 0) = ActionDestroy \<and>
   Action ([destroy_in_module, normal_at_root] ! 1) \<noteq> ActionDestroy \<and>
   ModulePath ([destroy_in_module, normal_at_root] ! 1) = [] \<and>
   heuristic_adjacency [destroy_in_module, normal_at_root] =
     [(''module.vpc.aws_instance.web'', [''aws_db_instance.db'']), (''aws_db_instance.db'', [])] \<and>
   FullName normal_at_root \<in>
     set (graph_get (heuristic_adjacency [destroy_in_module, normal_at_root])
            (FullName destroy_in_module))"
proof -
  have a: "Action ([destroy_in_module, normal_at_root] ! 0) = ActionDestroy"
    "Action ([destroy_in_module, normal_at_root] ! 1) \<noteq> ActionDestroy"
    "ModulePath ([destroy_in_module, normal_at_root] ! 1) = []"
    by (simp_all add: destroy_in_module_def normal_at_root_def)
  have g: "heuristic_adjacency [destroy_in_module, normal_at_root] =
     [(''module.vpc.aws_instance.web'', [''aws_db_instance.db'']), (''aws_db_instance.db'', [])]"
    by code_simp
  have "FullName ([destroy_in_module, normal_at_root] ! 1) \<in>
     set (graph_get (heuristic_adjacency [destroy_in_module, normal_at_root])
            (FullName ([destroy_in_module, normal_at_root] ! 0)))"
    by (rule heuristic_graph_destroy_edge [of 0 _ 1])
      (simp_all add: destroy_in_module_def normal_at_root_def)
  then show ?thesis using a g by simp
qed

theorem heuristic_graph_destroy_edge_counterexample:
  "Action destroy_in_module = ActionDestroy \<and>
   Action normal_in_other_module \<noteq> ActionDestroy \<and>
   heuristic_adjacency [destroy_in_module, normal_in_other_module] =
     [(''module.vpc.aws_instance.web'', []), (''module.app.aws_db_instance.db'', [])] \<and>
   FullName normal_in_other_module \<notin>
     set (graph_get (heuristic_adjacency [destroy_in_module, normal_in_other_module])
            (FullName destroy_in_module))"
proof -
  have g: "heuristic_adjacency [destroy_in_module, normal_in_other_module] =
     [(''module.vpc.aws_instance.web'', []), (''module.app.aws_db_instance.db'', [])]"
    by code_simp
  have f: "FullName destroy_in_module = ''module.vpc.aws_instance.web''" by code_simp
  show ?thesis unfolding g f
    by (simp add: destroy_in_module_def normal_in_other_module_def graph_get_def)
qed

section \<open>Properties of normalisation and deduplication\<close>

text \<open>The keys of the cycles that deduplication keeps are pairwise distinct.\<close>

lemma deduplicate_loop_keys:
  "seen = (\<lambda>d. Join (normalizeCycle d) '','') ` set unique \<Longrightarrow>
   distinct (map (\<lambda>d. Join (normalizeCycle d) '','') unique) \<Longrightarrow>
   distinct (map (\<lambda>d. Join (normalizeCycle d) '','') (deduplicate_loop cs seen unique))"
proof (induction cs seen unique rule: deduplicate_loop.induct)
  case (1 seen unique)
  then show ?case by simp
next
  case (2 cycle rest seen unique)
  show ?case
  proof (cases "length cycle < 2")
    case True
    with 2 show ?thesis by simp
  next
    case False
    show ?thesis
    proof (cases "Join (normalizeCycle cycle) '','' \<in> seen")
      case True
      with False 2(3) [OF False refl] 2(4,5) show ?thesis by simp
    next
      case nin: False
      have "insert (Join (normalizeCycle cycle) '','') seen =
          (\<lambda>d. Join (normalizeCycle d) '','') ` set (unique @ [cycle])"
        using 2(4) by auto
      moreover have "distinct (map (\<lambda>d. Join (normalizeCycle d) '','') (unique @ [cycle]))"
        using 2(4,5) nin by auto
      ultimately show ?thesis using False nin 2(2) [OF False refl] by simp
    qed
  qed
qed

lemma deduplicateCycles_keys:
  "distinct (map (\<lambda>d. Join (normalizeCycle d) '','') (deduplicateCycles cs))"
  unfolding deduplicateCycles_def by (rule deduplicate_loop_keys) simp_all

lemma deduplicateCycles_no_two_rotations:
  assumes u: "unique_min (deduplicateCycles cs ! i)"
    and i: "i < length (deduplicateCycles cs)" and j: "j < length (deduplicateCycles cs)"
    and ij: "i \<noteq> j"
  shows "deduplicateCycles cs ! j \<noteq> rotate n (deduplicateCycles cs ! i)"
proof
  assume r: "deduplicateCycles cs ! j = rotate n (deduplicateCycles cs ! i)"
  let ?key = "\<lambda>d. Join (normalizeCycle d) '',''"
  have "?key (deduplicateCycles cs ! j) = ?key (deduplicateCycles cs ! i)"
    unfolding r by (simp add: normalizeCycle_rotate_invariant [OF u])
  then have "map ?key (deduplicateCycles cs) ! j = map ?key (deduplicateCycles cs) ! i"
    using i j by simp
  with deduplicateCycles_keys [of cs] i j ij show False
    by (simp add: nth_eq_iff_index_eq del: nth_map)
qed

lemma deduplicateCycles_pair:
  assumes "unique_min c" "2 \<le> length c"
  shows "deduplicateCycles [c, rotate n c] = [c]"
  using assms by (simp add: deduplicateCycles_def Let_def normalizeCycle_rotate_invariant)

text \<open>
  Claim C7. Normalising a non-empty cycle rotates it: the result is a rotation of the
  cycle that begins with its smallest identity, so the cyclic order is kept. The cycles
  handed to the normaliser are cut from a search path (or are the empty list of names),
  so their identities are pairwise distinct; for every such cycle, each of its
  rotations has the same normal form, deduplicating the cycle and one of its rotations
  keeps the cycle alone, and no two entries of a deduplicated list are rotations of one
  another. The cycles \<open>[a, b, c]\<close> and \<open>[b, c, a]\<close> have the normal form
  \<open>[a, b, c]\<close> and collapse into one entry. Every cycle that deduplication keeps has
  at least two elements.
\<close>

theorem normalizeCycle_rotation_invariance:
  "(c \<noteq> [] \<longrightarrow>
      (\<exists>k<length c. normalizeCycle c = rotate k c) \<and> hd (normalizeCycle c) = Min (set c)) \<and>
   (distinct c \<longrightarrow> normalizeCycle (rotate n c) = normalizeCycle c) \<and>
   (distinct c \<and> 2 \<le> length c \<longrightarrow> deduplicateCycles [c, rotate n c] = [c]) \<and>
   (\<forall>i j. i < length (deduplicateCycles cs) \<and> j < length (deduplicateCycles cs) \<and> i \<noteq> j \<and>
      distinct (deduplicateCycles cs ! i) \<longrightarrow>
      deduplicateCycles cs ! j \<noteq> rotate n (deduplicateCycles cs ! i)) \<and>
   normalizeCycle [''a'', ''b'', ''c''] = [''a'', ''b'', ''c''] \<and>
   normalizeCycle [''b'', ''c'', ''a''] = [''a'', ''b'', ''c''] \<and>
   deduplicateCycles [[''a'', ''b'', ''c''], [''b'', ''c'', ''a'']] = [[''a'', ''b'', ''c'']] \<and>
   (\<forall>d\<in>set (deduplicateCycles cs). 2 \<le> length d) \<and>
   (length c < 2 \<longrightarrow> c \<notin> set (deduplicateCycles cs)) \<and>
   (length (Nodes tc) \<le> fuel \<longrightarrow>
      (\<exists>cands.
         findCyclesInGraph fuel
           (buildHypotheticalGraph (Nodes tc) (map FullName (Nodes tc)))
           (map FullName (Nodes tc)) = Some (deduplicateCycles cands) \<and>
         (\<forall>d\<in>set cands. distinct d)))"
proof (intro conjI impI allI ballI)
  assume ne: "c \<noteq> []"
  show "\<exists>k<length c. normalizeCycle c = rotate k c"
    using minIndex_of_less [OF ne] normalizeCycle_rotate [of c] by blast
  show "hd (normalizeCycle c) = Min (set c)" by (rule hd_normalizeCycle [OF ne])
next
  assume d: "distinct c"
  show "normalizeCycle (rotate n c) = normalizeCycle c"
  proof (cases "c = []")
    case True
    then show ?thesis by simp
  next
    case False
    from normalizeCycle_rotate_invariant [OF distinct_unique_min [OF False d]]
    show ?thesis .
  qed
next
  assume "distinct c \<and> 2 \<le> length c"
  then have "unique_min c" "2 \<le> length c" by (auto intro: distinct_unique_min)
  then show "deduplicateCycles [c, rotate n c] = [c]" by (rule deduplicateCycles_pair)
next
  fix i j
  assume a: "i < length (deduplicateCycles cs) \<and> j < length (deduplicateCycles cs) \<and> i \<noteq> j \<and>
      distinct (deduplicateCycles cs ! i)"
  then have "deduplicateCycles cs ! i \<in> set (deduplicateCycles cs)" by simp
  then have "deduplicateCycles cs ! i \<noteq> []" using deduplicateCycles_length by fastforce
  with a have "unique_min (deduplicateCycles cs ! i)" by (simp add: distinct_unique_min)
  with a show "deduplicateCycles cs ! j \<noteq> rotate n (deduplicateCycles cs ! i)"
    using deduplicateCycles_no_two_rotations [of cs i j n] by blast
next
  show "normalizeCycle [''a'', ''b'', ''c''] = [''a'', ''b'', ''c'']" by code_simp
  show "normalizeCycle [''b'', ''c'', ''a''] = [''a'', ''b'', ''c'']" by code_simp
  show "deduplicateCycles [[''a'', ''b'', ''c''], [''b'', ''c'', ''a'']] = [[''a'', ''b'', ''c'']]"
    by code_simp
next
  fix d assume "d \<in> set (deduplicateCycles cs)"
  then show "2 \<le> length d" by (simp add: deduplicateCycles_length)
next
  assume "length c < 2"
  then show "c \<notin> set (deduplicateCycles cs)"
    using deduplicateCycles_length [of c cs] by auto
next
  assume "length (Nodes tc) \<le> fuel"
  then show "\<exists>cands.
         findCyclesInGraph fuel
           (buildHypotheticalGraph (Nodes tc) (map FullName (Nodes tc)))
           (map FullName (Nodes tc)) = Some (deduplicateCycles cands) \<and>
         (\<forall>d\<in>set cands. distinct d)"
    by (rule findCyclesInGraph_candidates)
qed

theorem normalizeCycle_rotation_invariance_witness:
  "distinct [''c.z'', ''a.x'', ''b.y''] \<and>
   rotate 2 [''c.z'', ''a.x'', ''b.y''] = [''b.y'', ''c.z'', ''a.x''] \<and>
   normalizeCycle [''c.z'', ''a.x'', ''b.y''] = [''a.x'', ''b.y'', ''c.z''] \<and>
   normalizeCycle [''b.y'', ''c.z'', ''a.x''] = [''a.x'', ''b.y'', ''c.z''] \<and>
   deduplicateCycles [[''c.z'', ''a.x'', ''b.y''], [''b.y'', ''c.z'', ''a.x'']] =
     [[''c.z'', ''a.x'', ''b.y'']] \<and>
   length [''a.x''] < 2 \<and>
   deduplicateCycles [[''a.x''], [''c.z'', ''a.x'', ''b.y'']] = [[''c.z'', ''a.x'', ''b.y'']] \<and>
   length (Nodes five_nodes) \<le> 5 \<and>
   findCyclesInGraph 5
     (buildHypotheticalGraph (Nodes five_nodes) (map FullName (Nodes five_nodes)))
     (map FullName (Nodes five_nodes)) =
     Some (deduplicateCycles
       [[''module.m1.aws_eip.ip'', ''aws_iam_role.r'', ''module.m1.aws_iam_policy.p''],
        [''aws_security_group.a'', ''aws_security_group.b'']])"
proof -
  have u: "distinct [''c.z'', ''a.x'', ''b.y'']" by simp
  have r: "rotate 2 [''c.z'', ''a.x'', ''b.y''] = [''b.y'', ''c.z'', ''a.x'']" by code_simp
  have n: "normalizeCycle [''c.z'', ''a.x'', ''b.y''] = [''a.x'', ''b.y'', ''c.z'']" by code_simp
  have d: "deduplicateCycles [[''a.x''], [''c.z'', ''a.x'', ''b.y'']] = [[''c.z'', ''a.x'', ''b.y'']]"
    by code_simp
  have f: "length (Nodes five_nodes) \<le> 5" by (simp add: five_nodes_def)
  have g: "findCyclesInGraph 5
     (buildHypotheticalGraph (Nodes five_nodes) (map FullName (Nodes five_nodes)))
     (map FullName (Nodes five_nodes)) =
     Some (deduplicateCycles
       [[''module.m1.aws_eip.ip'', ''aws_iam_role.r'', ''module.m1.aws_iam_policy.p''],
        [''aws_security_group.a'', ''aws_security_group.b'']])"
    by code_simp
  have u2: "distinct [''c.z'', ''a.x'', ''b.y''] \<and> 2 \<le> length [''c.z'', ''a.x'', ''b.y'']"
    by simp
  have l: "length [''a.x''] < 2" by simp
  note a = normalizeCycle_rotation_invariance
    [where c = "[''c.z'', ''a.x'', ''b.y'']" and n = "2",
      THEN conjunct2, THEN conjunct1, THEN mp, OF u, unfolded r]
  note b = normalizeCycle_rotation_invariance
    [where c = "[''c.z'', ''a.x'', ''b.y'']" and n = "2",
      THEN conjunct2, THEN conjunct2, THEN conjunct1, THEN mp, OF u2, unfolded r]
  from u r n trans [OF a n] b l d f g show ?thesis by (intro conjI)
qed

section \<open>Properties of the cycle search\<close>

lemma FindMinimalCycles_nonempty_aux:
  assumes n: "2 \<le> length (Nodes tc)" and d: "distinct (map FullName (Nodes tc))"
    and f: "length (Nodes tc) \<le> fuel"
  shows "\<exists>cs. FindMinimalCycles fuel tc = Some (cs, tc\<lparr>Cycles := cs\<rparr>) \<and> cs \<noteq> []"
proof -
  from findCyclesInGraph_nonempty [OF f d n] obtain c cs where
    "findCyclesInGraph fuel (buildHypotheticalGraph (Nodes tc) (map FullName (Nodes tc)))
            (map FullName (Nodes tc)) = Some (c # cs)"
    by blast
  then have "FindMinimalCycles fuel tc =
      Some (sort_key length (c # cs), tc\<lparr>Cycles := sort_key length (c # cs)\<rparr>)"
    by (simp add: FindMinimalCycles_def Let_def)
  moreover have "sort_key length (c # cs) \<noteq> []"
    using length_sort [of length "c # cs"] by (metis length_0_conv list.distinct(1))
  ultimately show ?thesis by blast
qed

lemma FindMinimalCycles_Nodes_only:
  "map_option fst (FindMinimalCycles fuel (tc\<lparr>Cycles := x\<rparr>)) =
   map_option fst (FindMinimalCycles fuel tc)"
  by (simp add: FindMinimalCycles_def Let_def split: option.splits)

lemma GetNodeByName_Cycles: "GetNodeByName (tc\<lparr>Cycles := x\<rparr>) name = GetNodeByName tc name"
  by (simp add: GetNodeByName_def)

lemma count_types_Cycles: "count_types (tc\<lparr>Cycles := x\<rparr>) cycle m = count_types tc cycle m"
  by (induction cycle arbitrary: m) (simp_all add: GetNodeByName_Cycles split: option.splits)

lemma hasDestroyAction_Cycles: "hasDestroyAction (tc\<lparr>Cycles := x\<rparr>) cycle = hasDestroyAction tc cycle"
  by (induction cycle) (simp_all add: GetNodeByName_Cycles split: option.splits)

lemma GenerateSuggestions_Cycles:
  "GenerateSuggestions (tc\<lparr>Cycles := x\<rparr>) cycle = GenerateSuggestions tc cycle"
  by (simp add: GenerateSuggestions_def count_types_Cycles hasDestroyAction_Cycles)

lemma allNodesHaveConnections_order:
  "set g = set g' \<Longrightarrow> allNodesHaveConnections g = allNodesHaveConnections g'"
  by (simp add: allNodesHaveConnections_def list_all_iff)

text \<open>
  Claim C1, as amended. For every node set of at least two nodes whose full names are
  pairwise distinct, \<open>FindMinimalCycles\<close> returns (the search ends as soon as the fuel
  is at least the number of nodes) and the list it returns has at least one cycle,
  whether the search ran on the heuristic graph or on the ring; every cycle returned
  has at least two elements, and they are pairwise distinct.
\<close>

theorem FindMinimalCycles_at_least_one:
  assumes "2 \<le> length (Nodes tc)" and "distinct (map FullName (Nodes tc))"
    and "length (Nodes tc) \<le> fuel"
  shows "\<exists>cs. FindMinimalCycles fuel tc = Some (cs, tc\<lparr>Cycles := cs\<rparr>) \<and> cs \<noteq> [] \<and>
           (\<forall>c\<in>set cs. 2 \<le> length c \<and> distinct c)"
proof -
  from FindMinimalCycles_nonempty_aux [OF assms] obtain cs where
    1: "FindMinimalCycles fuel tc = Some (cs, tc\<lparr>Cycles := cs\<rparr>)" "cs \<noteq> []" by blast
  from FindMinimalCycles_total [OF assms(3)] 1(1) have "\<forall>c\<in>set cs. 2 \<le> length c" by auto
  moreover from FindMinimalCycles_distinct [OF assms(2) 1(1)] have "\<forall>c\<in>set cs. distinct c" .
  ultimately show ?thesis using 1 by blast
qed

theorem FindMinimalCycles_at_least_one_witness:
  "2 \<le> length (Nodes two_unrelated) \<and> distinct (map FullName (Nodes two_unrelated)) \<and>
   length (Nodes two_unrelated) \<le> 2 \<and>
   buildHypotheticalGraph (Nodes two_unrelated) (map FullName (Nodes two_unrelated)) =
     [(''aws_instance.web'', [''aws_eip.ip'']), (''aws_eip.ip'', [''aws_instance.web''])] \<and>
   FindMinimalCycles 2 two_unrelated =
     Some ([[''aws_instance.web'', ''aws_eip.ip'']],
           two_unrelated\<lparr>Cycles := [[''aws_instance.web'', ''aws_eip.ip'']]\<rparr>)"
proof -
  have 1: "2 \<le> length (Nodes two_unrelated)" "length (Nodes two_unrelated) \<le> 2"
    by (simp_all add: two_unrelated_def)
  have 2: "distinct (map FullName (Nodes two_unrelated))" by code_simp
  have 3: "buildHypotheticalGraph (Nodes two_unrelated) (map FullName (Nodes two_unrelated)) =
     [(''aws_instance.web'', [''aws_eip.ip'']), (''aws_eip.ip'', [''aws_instance.web''])]"
    by code_simp
  have 4: "map_option fst (FindMinimalCycles 2 two_unrelated) =
      Some [[''aws_instance.web'', ''aws_eip.ip'']]"
    by code_simp
  from FindMinimalCycles_at_least_one [OF 1(1) 2 1(2)] 4
  have "FindMinimalCycles 2 two_unrelated =
     Some ([[''aws_instance.web'', ''aws_eip.ip'']],
           two_unrelated\<lparr>Cycles := [[''aws_instance.web'', ''aws_eip.ip'']]\<rparr>)"
    by auto
  with 1 2 3 show ?thesis by (intro conjI)
qed

theorem FindMinimalCycles_at_least_one_counterexample:
  "ParseError ''Error: Cycle: aws_instance.web'' = Inr one_node \<and>
   Nodes one_node \<noteq> [] \<and>
   FindMinimalCycles 1 one_node = Some ([], one_node) \<and>
   FindMinimalCycles 5 one_node = Some ([], one_node) \<and>
   ParseError ''Error: Cycle: aws_instance.web, aws_instance.web'' = Inr same_node_twice \<and>
   FindMinimalCycles 2 same_node_twice = Some ([], same_node_twice)"
proof -
  have 1: "ParseError ''Error: Cycle: aws_instance.web'' = Inr one_node" by code_simp
  have 2: "Nodes one_node \<noteq> []" by (simp add: one_node_def)
  have 3: "FindMinimalCycles 1 one_node = Some ([], one_node)" by code_simp
  have 4: "FindMinimalCycles 5 one_node = Some ([], one_node)" by code_simp
  have 5: "ParseError ''Error: Cycle: aws_instance.web, aws_instance.web'' = Inr same_node_twice"
    by code_simp
  have 6: "FindMinimalCycles 2 same_node_twice = Some ([], same_node_twice)" by code_simp
  from 1 2 3 4 5 6 show ?thesis by (intro conjI)
qed

text \<open>
  Claim C8. \<open>FindMinimalCycles\<close> returns (with fuel at least the number of nodes), and
  the list it returns is sorted by cycle length, ascending: of two adjacent cycles the
  earlier is not longer than the later. Whatever the fuel, a list that is returned is
  sorted so.
\<close>

theorem FindMinimalCycles_sorted_by_length:
  "(length (Nodes tc) \<le> fuel \<longrightarrow>
      (\<exists>cs. FindMinimalCycles fuel tc = Some (cs, tc\<lparr>Cycles := cs\<rparr>) \<and>
         sorted (map length cs) \<and>
         (\<forall>i. Suc i < length cs \<longrightarrow> length (cs ! i) \<le> length (cs ! Suc i)))) \<and>
   (\<forall>cs tc'. FindMinimalCycles fuel' tc = Some (cs, tc') \<longrightarrow>
      sorted (map length cs) \<and>
      (\<forall>i. Suc i < length cs \<longrightarrow> length (cs ! i) \<le> length (cs ! Suc i)))"
proof -
  have adj: "\<forall>i. Suc i < length cs \<longrightarrow> length (cs ! i) \<le> length (cs ! Suc i)"
    if "sorted (map length cs)" for cs :: "string list list"
  proof (intro allI impI)
    fix i assume i: "Suc i < length cs"
    with that have "map length cs ! i \<le> map length cs ! Suc i"
      by (intro sorted_nth_mono) simp_all
    with i show "length (cs ! i) \<le> length (cs ! Suc i)" by simp
  qed
  have any: "sorted (map length cs)" if "FindMinimalCycles fuel' tc = Some (cs, tc')" for cs tc'
    using that by (auto simp: FindMinimalCycles_def Let_def sorted_sort_key split: option.splits)
  show ?thesis
  proof (intro conjI impI allI)
    assume "length (Nodes tc) \<le> fuel"
    from FindMinimalCycles_total [OF this] obtain cs where
      "FindMinimalCycles fuel tc = Some (cs, tc\<lparr>Cycles := cs\<rparr>)" "sorted (map length cs)"
      by blast
    with adj [of cs]
    show "\<exists>cs. FindMinimalCycles fuel tc = Some (cs, tc\<lparr>Cycles := cs\<rparr>) \<and>
         sorted (map length cs) \<and>
         (\<forall>i. Suc i < length cs \<longrightarrow> length (cs ! i) \<le> length (cs ! Suc i))"
      by blast
  next
    fix cs tc' assume "FindMinimalCycles fuel' tc = Some (cs, tc')"
    then show "sorted (map length cs)" by (rule any)
  next
    fix cs tc' i assume "FindMinimalCycles fuel' tc = Some (cs, tc')" "Suc i < length cs"
    with adj [OF any] show "length (cs ! i) \<le> length (cs ! Suc i)" by blast
  qed
qed

theorem FindMinimalCycles_sorted_by_length_witness:
  "length (Nodes five_nodes) \<le> 5 \<and>
   findCyclesInGraph 5
     (buildHypotheticalGraph (Nodes five_nodes) (map FullName (Nodes five_nodes)))
     (map FullName (Nodes five_nodes)) =
     Some [[''module.m1.aws_eip.ip'', ''aws_iam_role.r'', ''module.m1.aws_iam_policy.p''],
           [''aws_security_group.a'', ''aws_security_group.b'']] \<and>
   FindMinimalCycles 5 five_nodes =
     Some ([[''aws_security_group.a'', ''aws_security_group.b''],
            [''module.m1.aws_eip.ip'', ''aws_iam_role.r'', ''module.m1.aws_iam_policy.p'']],
           five_nodes\<lparr>Cycles :=
             [[''aws_security_group.a'', ''aws_security_group.b''],
              [''module.m1.aws_eip.ip'', ''aws_iam_role.r'', ''module.m1.aws_iam_policy.p'']]\<rparr>) \<and>
   sorted (map length
     [[''aws_security_group.a'', ''aws_security_group.b''],
      [''module.m1.aws_eip.ip'', ''aws_iam_role.r'', ''module.m1.aws_iam_policy.p'']])"
proof -
  have 1: "length (Nodes five_nodes) \<le> 5" by (simp add: five_nodes_def)
  have 2: "findCyclesInGraph 5
     (buildHypotheticalGraph (Nodes five_nodes) (map FullName (Nodes five_nodes)))
     (map FullName (Nodes five_nodes)) =
     Some [[''module.m1.aws_eip.ip'', ''aws_iam_role.r'', ''module.m1.aws_iam_policy.p''],
           [''aws_security_group.a'', ''aws_security_group.b'']]"
    by code_simp
  have 3: "map_option fst (FindMinimalCycles 5 five_nodes) =
     Some [[''aws_security_group.a'', ''aws_security_group.b''],
            [''module.m1.aws_eip.ip'', ''aws_iam_role.r'', ''module.m1.aws_iam_policy.p'']]"
    by code_simp
  from FindMinimalCycles_sorted_by_length [of five_nodes 5 5] 1 3
  have 4: "FindMinimalCycles 5 five_nodes =
     Some ([[''aws_security_group.a'', ''aws_security_group.b''],
            [''module.m1.aws_eip.ip'', ''aws_iam_role.r'', ''module.m1.aws_iam_policy.p'']],
           five_nodes\<lparr>Cycles :=
             [[''aws_security_group.a'', ''aws_security_group.b''],
              [''module.m1.aws_eip.ip'', ''aws_iam_role.r'', ''module.m1.aws_iam_policy.p'']]\<rparr>)"
    by auto
  from FindMinimalCycles_sorted_by_length [of five_nodes 5 5] 4
  have 5: "sorted (map length
     [[''aws_security_group.a'', ''aws_security_group.b''],
      [''module.m1.aws_eip.ip'', ''aws_iam_role.r'', ''module.m1.aws_iam_policy.p'']])"
    by blast
  from 1 2 4 5 show ?thesis by (intro conjI)
qed

text \<open>
  Claim C10. For a fixed node set, a first call of \<open>FindMinimalCycles\<close> and a second
  call on the record the first one left behind (which differs in the field \<open>Cycles\<close>
  only) return the same list and leave the same record, whatever fuel beyond the number
  of nodes each is given; and \<open>GenerateSuggestions\<close> on a cycle returns the same list
  before and after these calls. The one loop over a Go map, in
  \<open>allNodesHaveConnections\<close>, gives the same answer in whatever order the entries come.
\<close>

theorem repeated_invocation_same_result:
  assumes "length (Nodes tc) \<le> fuel1" and "length (Nodes tc) \<le> fuel2"
  shows "\<exists>cs. FindMinimalCycles fuel1 tc = Some (cs, tc\<lparr>Cycles := cs\<rparr>) \<and>
      FindMinimalCycles fuel2 (tc\<lparr>Cycles := cs\<rparr>) = Some (cs, tc\<lparr>Cycles := cs\<rparr>) \<and>
      FindMinimalCycles fuel2 tc = Some (cs, tc\<lparr>Cycles := cs\<rparr>) \<and>
      GenerateSuggestions (tc\<lparr>Cycles := cs\<rparr>) cycle = GenerateSuggestions tc cycle \<and>
      (\<forall>g g'. set g = set g' \<longrightarrow> allNodesHaveConnections g = allNodesHaveConnections g')"
proof -
  from FindMinimalCycles_total [OF assms(1)] obtain cs1 where
    1: "FindMinimalCycles fuel1 tc = Some (cs1, tc\<lparr>Cycles := cs1\<rparr>)" by blast
  from FindMinimalCycles_total [OF assms(2)] obtain cs2 where
    2: "FindMinimalCycles fuel2 tc = Some (cs2, tc\<lparr>Cycles := cs2\<rparr>)" by blast
  have "FindMinimalCycles (max fuel1 fuel2) tc = Some (cs1, tc\<lparr>Cycles := cs1\<rparr>)"
    by (rule FindMinimalCycles_fuel_mono [OF 1]) simp
  moreover have "FindMinimalCycles (max fuel1 fuel2) tc = Some (cs2, tc\<lparr>Cycles := cs2\<rparr>)"
    by (rule FindMinimalCycles_fuel_mono [OF 2]) simp
  ultimately have eq: "cs2 = cs1" by simp
  have "length (Nodes (tc\<lparr>Cycles := cs1\<rparr>)) \<le> fuel2" using assms(2) by simp
  from FindMinimalCycles_total [OF this] obtain cs3 where
    3: "FindMinimalCycles fuel2 (tc\<lparr>Cycles := cs1\<rparr>) = Some (cs3, tc\<lparr>Cycles := cs3\<rparr>)"
    by auto
  from FindMinimalCycles_Nodes_only [where fuel = fuel2 and tc = tc and x = cs1] 2 3 eq have "cs3 = cs1" by simp
  moreover have "GenerateSuggestions (tc\<lparr>Cycles := cs1\<rparr>) cycle = GenerateSuggestions tc cycle"
    by (rule GenerateSuggestions_Cycles)
  moreover have "\<forall>g g'. set g = set g' \<longrightarrow> allNodesHaveConnections g = allNodesHaveConnections g'"
    using allNodesHaveConnections_order by blast
  ultimately show ?thesis using 1 2 3 eq by blast
qed

theorem repeated_invocation_same_result_witness:
  "length (Nodes two_unrelated) \<le> 2 \<and> length (Nodes two_unrelated) \<le> 7 \<and>
   FindMinimalCycles 2 two_unrelated =
     Some ([[''aws_instance.web'', ''aws_eip.ip'']],
           two_unrelated\<lparr>Cycles := [[''aws_instance.web'', ''aws_eip.ip'']]\<rparr>) \<and>
   FindMinimalCycles 7 (two_unrelated\<lparr>Cycles := [[''aws_instance.web'', ''aws_eip.ip'']]\<rparr>) =
     Some ([[''aws_instance.web'', ''aws_eip.ip'']],
           two_unrelated\<lparr>Cycles := [[''aws_instance.web'', ''aws_eip.ip'']]\<rparr>) \<and>
   GenerateSuggestions (two_unrelated\<lparr>Cycles := [[''aws_instance.web'', ''aws_eip.ip'']]\<rparr>)
       [''aws_instance.web'', ''aws_eip.ip''] =
     GenerateSuggestions two_unrelated [''aws_instance.web'', ''aws_eip.ip'']"
proof -
  have 1: "length (Nodes two_unrelated) \<le> 2" "length (Nodes two_unrelated) \<le> 7"
    by (simp_all add: two_unrelated_def)
  have 2: "map_option fst (FindMinimalCycles 2 two_unrelated) =
      Some [[''aws_instance.web'', ''aws_eip.ip'']]"
    by code_simp
  from repeated_invocation_same_result [OF 1, of "[''aws_instance.web'', ''aws_eip.ip'']"]
  obtain cs where r: "FindMinimalCycles 2 two_unrelated = Some (cs, two_unrelated\<lparr>Cycles := cs\<rparr>)"
    "FindMinimalCycles 7 (two_unrelated\<lparr>Cycles := cs\<rparr>) = Some (cs, two_unrelated\<lparr>Cycles := cs\<rparr>)"
    "GenerateSuggestions (two_unrelated\<lparr>Cycles := cs\<rparr>) [''aws_instance.web'', ''aws_eip.ip''] =
     GenerateSuggestions two_unrelated [''aws_instance.web'', ''aws_eip.ip'']"
    by blast
  from r(1) 2 have "cs = [[''aws_instance.web'', ''aws_eip.ip'']]" by simp
  with r 1 show ?thesis by simp
qed

section \<open>Properties of the suggestion engine\<close>

lemma count_types_unmatched:
  "\<forall>n\<in>set cycle. GetNodeByName tc n = None \<Longrightarrow> count_types tc cycle m = m"
  by (induction cycle arbitrary: m) auto

lemma hasDestroyAction_unmatched:
  "\<forall>n\<in>set cycle. GetNodeByName tc n = None \<Longrightarrow> \<not> hasDestroyAction tc cycle"
  by (induction cycle) auto

text \<open>
  Claim C9. \<open>GenerateSuggestions\<close> is a total function with no error branch, and for every
  cycle, whatever its identities, the list it returns has at least one element. When none
  of the three rules fires (fewer than two security groups, not both an IAM role and an
  IAM policy, no destroy action), and in particular when no identity of the cycle names a
  node, the result is the generic fallback list.
\<close>

theorem GenerateSuggestions_at_least_one:
  "GenerateSuggestions tc cycle \<noteq> [] \<and>
   length (GenerateSuggestions tc cycle) \<ge> 1 \<and>
   (\<not> count_types tc cycle (\<lambda>_. 0) ''aws_security_group'' \<ge> 2 \<and>
    \<not> (count_types tc cycle (\<lambda>_. 0) ''aws_iam_role'' > 0 \<and>
       count_types tc cycle (\<lambda>_. 0) ''aws_iam_policy'' > 0) \<and>
    \<not> hasDestroyAction tc cycle
    \<longrightarrow> GenerateSuggestions tc cycle = generic_suggestions) \<and>
   ((\<forall>n\<in>set cycle. GetNodeByName tc n = None)
    \<longrightarrow> GenerateSuggestions tc cycle = generic_suggestions)"
proof -
  have ne: "GenerateSuggestions tc cycle \<noteq> []"
    by (simp add: GenerateSuggestions_def Let_def generic_suggestions_def
        security_group_suggestions_def iam_suggestions_def destroy_suggestions_def)
  then have len: "length (GenerateSuggestions tc cycle) \<ge> 1"
    by (cases "GenerateSuggestions tc cycle") simp_all
  have fallback: "GenerateSuggestions tc cycle = generic_suggestions"
    if "\<not> count_types tc cycle (\<lambda>_. 0) ''aws_security_group'' \<ge> 2"
      and "\<not> (count_types tc cycle (\<lambda>_. 0) ''aws_iam_role'' > 0 \<and>
       count_types tc cycle (\<lambda>_. 0) ''aws_iam_policy'' > 0)"
      and "\<not> hasDestroyAction tc cycle"
    using that by (auto simp add: GenerateSuggestions_def Let_def)
  have unmatched: "GenerateSuggestions tc cycle = generic_suggestions"
    if u: "\<forall>n\<in>set cycle. GetNodeByName tc n = None"
    using count_types_unmatched [OF u] hasDestroyAction_unmatched [OF u]
    by (intro fallback) simp_all
  from ne len fallback unmatched show ?thesis by blast
qed

theorem GenerateSuggestions_at_least_one_witness:
  "GetNodeByName \<lparr>Nodes = [], RawError = [], Cycles = []\<rparr> ''a.b'' = None \<and>
   GetNodeByName \<lparr>Nodes = [], RawError = [], Cycles = []\<rparr> ''c.d'' = None \<and>
   GenerateSuggestions \<lparr>Nodes = [], RawError = [], Cycles = []\<rparr> [''a.b'', ''c.d'']
     = generic_suggestions"
  using GenerateSuggestions_at_least_one
    [of "\<lparr>Nodes = [], RawError = [], Cycles = []\<rparr>" "[''a.b'', ''c.d'']"]
  by (simp add: GetNodeByName_def)

end
